theory Spec2Isabelle
  imports Complex_Main "HOL-Library.Log_Nat"
begin

section \<open>JavaScript numbers\<close>

text \<open>
  The simulation works on JavaScript numbers. They are modelled as the real numbers
  together with the three special values of IEEE 754: every finite value is an exact
  real (no rounding, no overflow, no signed zero), and \<open>NaN\<close>, \<open>PInf\<close> and
  \<open>NInf\<close> behave as in IEEE 754. Where the sign of a zero would decide a result
  (a division by zero, \<open>Math.atan2\<close> on the axes) the zero counts as positive.
  The two exceptions are the quotient and the product that \<open>makeUpdate\<close> truncates to
  an integer: there the last bit decides the result, so they are rounded to the double
  format, and a tick duration that is the negative zero is told apart.
\<close>

datatype number = Fin real | PInf | NInf | NaN

instantiation number :: "{plus, minus, uminus, times, inverse, ord}"
begin

fun plus_number :: "number \<Rightarrow> number \<Rightarrow> number" where
  "plus_number NaN y = NaN"
| "plus_number x NaN = NaN"
| "plus_number (Fin a) (Fin b) = Fin (a + b)"
| "plus_number PInf NInf = NaN"
| "plus_number NInf PInf = NaN"
| "plus_number PInf y = PInf"
| "plus_number NInf y = NInf"
| "plus_number (Fin a) y = y"

fun uminus_number :: "number \<Rightarrow> number" where
  "uminus_number (Fin a) = Fin (- a)"
| "uminus_number PInf = NInf"
| "uminus_number NInf = PInf"
| "uminus_number NaN = NaN"

definition minus_number :: "number \<Rightarrow> number \<Rightarrow> number" where
  "minus_number x y = x + (- y)"

fun times_number :: "number \<Rightarrow> number \<Rightarrow> number" where
  "times_number NaN y = NaN"
| "times_number x NaN = NaN"
| "times_number (Fin a) (Fin b) = Fin (a * b)"
| "times_number (Fin a) PInf = (if a = 0 then NaN else if 0 < a then PInf else NInf)"
| "times_number (Fin a) NInf = (if a = 0 then NaN else if 0 < a then NInf else PInf)"
| "times_number PInf (Fin b) = (if b = 0 then NaN else if 0 < b then PInf else NInf)"
| "times_number NInf (Fin b) = (if b = 0 then NaN else if 0 < b then NInf else PInf)"
| "times_number PInf PInf = PInf"
| "times_number PInf NInf = NInf"
| "times_number NInf PInf = NInf"
| "times_number NInf NInf = PInf"

fun divide_number :: "number \<Rightarrow> number \<Rightarrow> number" where
  "divide_number NaN y = NaN"
| "divide_number x NaN = NaN"
| "divide_number (Fin a) (Fin b) =
     (if b = 0 then (if a = 0 then NaN else if 0 < a then PInf else NInf)
      else Fin (a / b))"
| "divide_number (Fin a) y = Fin 0"
| "divide_number PInf (Fin b) = (if 0 \<le> b then PInf else NInf)"
| "divide_number NInf (Fin b) = (if 0 \<le> b then NInf else PInf)"
| "divide_number x y = NaN"

definition inverse_number :: "number \<Rightarrow> number" where
  "inverse_number x = divide (Fin 1) x"

fun less_number :: "number \<Rightarrow> number \<Rightarrow> bool" where
  "less_number (Fin a) (Fin b) = (a < b)"
| "less_number (Fin a) PInf = True"
| "less_number NInf (Fin b) = True"
| "less_number NInf PInf = True"
| "less_number x y = False"

fun less_eq_number :: "number \<Rightarrow> number \<Rightarrow> bool" where
  "less_eq_number (Fin a) (Fin b) = (a \<le> b)"
| "less_eq_number (Fin a) PInf = True"
| "less_eq_number NInf (Fin b) = True"
| "less_eq_number NInf PInf = True"
| "less_eq_number PInf PInf = True"
| "less_eq_number NInf NInf = True"
| "less_eq_number x y = False"

instance ..

end

definition isNaN :: "number \<Rightarrow> bool" where
  "isNaN x = (x = NaN)"

fun isFinite :: "number \<Rightarrow> bool" where
  "isFinite (Fin a) = True"
| "isFinite x = False"

fun Math_min :: "number \<Rightarrow> number \<Rightarrow> number" where
  "Math_min NaN y = NaN"
| "Math_min x NaN = NaN"
| "Math_min x y = (if x \<le> y then x else y)"

fun Math_max :: "number \<Rightarrow> number \<Rightarrow> number" where
  "Math_max NaN y = NaN"
| "Math_max x NaN = NaN"
| "Math_max x y = (if x \<le> y then y else x)"

fun Math_abs :: "number \<Rightarrow> number" where
  "Math_abs (Fin a) = Fin \<bar>a\<bar>"
| "Math_abs PInf = PInf"
| "Math_abs NInf = PInf"
| "Math_abs NaN = NaN"

fun Math_trunc :: "number \<Rightarrow> number" where
  "Math_trunc (Fin a) = Fin (of_int (if 0 \<le> a then \<lfloor>a\<rfloor> else \<lceil>a\<rceil>))"
| "Math_trunc x = x"

fun Math_cos :: "number \<Rightarrow> number" where
  "Math_cos (Fin a) = Fin (cos a)"
| "Math_cos x = NaN"

fun Math_sin :: "number \<Rightarrow> number" where
  "Math_sin (Fin a) = Fin (sin a)"
| "Math_sin x = NaN"

fun Math_acos :: "number \<Rightarrow> number" where
  "Math_acos (Fin a) = (if - 1 \<le> a \<and> a \<le> 1 then Fin (arccos a) else NaN)"
| "Math_acos x = NaN"

fun Math_exp :: "number \<Rightarrow> number" where
  "Math_exp (Fin a) = Fin (exp a)"
| "Math_exp PInf = PInf"
| "Math_exp NInf = Fin 0"
| "Math_exp NaN = NaN"

text \<open>\<open>Math.pow\<close> is only ever called with the literal exponent 2, so the exponent is a
  natural number here.\<close>

fun Math_pow :: "number \<Rightarrow> nat \<Rightarrow> number" where
  "Math_pow (Fin a) n = Fin (a ^ n)"
| "Math_pow PInf n = (if n = 0 then Fin 1 else PInf)"
| "Math_pow NInf n = (if n = 0 then Fin 1 else if even n then PInf else NInf)"
| "Math_pow NaN n = (if n = 0 then Fin 1 else NaN)"

fun Math_hypot :: "number \<Rightarrow> number \<Rightarrow> number" where
  "Math_hypot (Fin a) (Fin b) = Fin (sqrt (a ^ 2 + b ^ 2))"
| "Math_hypot PInf y = PInf"
| "Math_hypot NInf y = PInf"
| "Math_hypot x PInf = PInf"
| "Math_hypot x NInf = PInf"
| "Math_hypot x y = NaN"

definition atan2 :: "real \<Rightarrow> real \<Rightarrow> real" where
  "atan2 y x =
     (if 0 < x then arctan (y / x)
      else if x < 0 then (if 0 \<le> y then arctan (y / x) + pi else arctan (y / x) - pi)
      else if 0 < y then pi / 2
      else if y < 0 then - (pi / 2)
      else 0)"

fun Math_atan2 :: "number \<Rightarrow> number \<Rightarrow> number" where
  "Math_atan2 NaN x = NaN"
| "Math_atan2 y NaN = NaN"
| "Math_atan2 (Fin y) (Fin x) = Fin (atan2 y x)"
| "Math_atan2 (Fin y) PInf = Fin 0"
| "Math_atan2 (Fin y) NInf = (if 0 \<le> y then Fin pi else Fin (- pi))"
| "Math_atan2 PInf (Fin x) = Fin (pi / 2)"
| "Math_atan2 NInf (Fin x) = Fin (- (pi / 2))"
| "Math_atan2 PInf PInf = Fin (pi / 4)"
| "Math_atan2 PInf NInf = Fin (3 * pi / 4)"
| "Math_atan2 NInf PInf = Fin (- (pi / 4))"
| "Math_atan2 NInf NInf = Fin (- (3 * pi / 4))"

section \<open>Geodesic primitives\<close>

record Position =
  lat :: number
  lon :: number

definition radians :: "number \<Rightarrow> number" where
  "radians theta = (theta * Fin pi) / Fin 180"

definition degrees :: "number \<Rightarrow> number" where
  "degrees theta = (theta * Fin 180) / Fin pi"

definition hav :: "number \<Rightarrow> number" where
  "hav theta = (Fin 1 - Math_cos theta) / Fin 2"

definition invHav :: "number \<Rightarrow> number" where
  "invHav x = Math_acos (Math_min (Fin 1) (Math_max (Fin (- 1)) (Fin 1 - Fin 2 * x)))"

definition haversineDist :: "Position \<Rightarrow> Position \<Rightarrow> number" where
  "haversineDist pos1 pos2 =
     (let latDiff = radians (lat pos2 - lat pos1);
          lonDiff = radians (lon pos2 - lon pos1);
          havTheta = hav latDiff
            + Math_cos (radians (lat pos1)) * Math_cos (radians (lat pos2)) * hav lonDiff
      in invHav havTheta)"

definition finitePos :: "Position \<Rightarrow> bool" where
  "finitePos p = (isFinite (lat p) \<and> isFinite (lon p))"


section \<open>Wind field interpolation\<close>

record Wind =
  dir :: number
  speed :: number

text \<open>A station report; the station's code stands for the \<open>Station\<close> object, which the
  simulation never reads.\<close>

record StationReport =
  station :: string
  pos :: Position
  wind :: Wind

type_synonym Interpolator = "Position \<Rightarrow> number \<Rightarrow> Position \<times> Wind"

record InterpolatorOptions =
  basisFn :: "number \<Rightarrow> number"
  norm' :: "Position \<Rightarrow> Position \<Rightarrow> number"

text \<open>The default options of \<open>makeInterpolator\<close>.\<close>

definition defaultOptions :: InterpolatorOptions where
  "defaultOptions =
     \<lparr>basisFn = (\<lambda>r. Math_exp (Fin (- 300) * Math_pow r 2)), norm' = haversineDist\<rparr>"

text \<open>
  Matrices of the \<open>ml-matrix\<close> package are lists of rows. \<open>new Matrix(r, c)\<close> is filled
  with zeros (for no reports it is the empty matrix) and \<open>set\<close> writes one entry; the
  loops of \<open>makeInterpolator\<close> only write inside the matrix.
\<close>

type_synonym Matrix = "number list list"

definition Matrix_new :: "nat \<Rightarrow> nat \<Rightarrow> Matrix" where
  "Matrix_new r c = replicate r (replicate c (Fin 0))"

definition Matrix_set :: "Matrix \<Rightarrow> nat \<Rightarrow> nat \<Rightarrow> number \<Rightarrow> Matrix" where
  "Matrix_set m i j v = m[i := (m ! i)[j := v]]"

text \<open>The inner loop of the kernel construction: \<open>for (let j = 0; j < i; j++)\<close>.\<close>

definition bases_row :: "InterpolatorOptions \<Rightarrow> StationReport list \<Rightarrow> nat \<Rightarrow> Matrix \<Rightarrow> Matrix" where
  "bases_row opts reports i m =
     foldl (\<lambda>m j.
        let weight = basisFn opts (norm' opts (pos (reports ! i)) (pos (reports ! j)))
        in Matrix_set (Matrix_set m i j weight) j i weight) m [0..<i]"

text \<open>The outer loop: \<open>for (let i = 0; i < reports.length; i++)\<close>.\<close>

definition bases :: "InterpolatorOptions \<Rightarrow> StationReport list \<Rightarrow> Matrix" where
  "bases opts reports =
     foldl (\<lambda>m i. Matrix_set (bases_row opts reports i m) i i (Fin 1))
       (Matrix_new (length reports) (length reports)) [0..<length reports]"

text \<open>
  The loop over the reports between the kernel construction and the right-hand sides
  only calls \<open>console.warn\<close> (on a speed above 40, and on a \<open>NaN\<close> speed or direction);
  it changes no data and has no counterpart here. Every report enters the two
  right-hand sides.
\<close>

definition latSpeeds :: "StationReport list \<Rightarrow> number list" where
  "latSpeeds reports = map (\<lambda>r. speed (wind r) * Math_cos (radians (dir (wind r)))) reports"

definition lonSpeeds :: "StationReport list \<Rightarrow> number list" where
  "lonSpeeds reports = map (\<lambda>r. speed (wind r) * Math_sin (radians (dir (wind r)))) reports"

text \<open>
  Modelled from the spec: the \<open>ml-matrix\<close> package is not part of the repository. The
  product of a row vector with a column vector, read at \<open>(0, 0)\<close>, is the dot product of
  section 4.3 (\<open>latSpeed = b \<cdot> w_lat\<close>), accumulated from 0 in index order. The two
  vectors have the same length whenever \<open>solve\<close> returns a vector of the dimension of
  the system.
\<close>

definition mmul :: "number list \<Rightarrow> number list \<Rightarrow> number" where
  "mmul base weights = foldl (\<lambda>s (b, w). s + b * w) (Fin 0) (zip base weights)"

definition EARTH_RADIUS :: number where
  "EARTH_RADIUS = Fin 3963.1"

text \<open>The function that \<open>makeInterpolator\<close> returns, with the variables it captures
  (the options, the reports and the two solved weight vectors) as arguments. The debug
  logging is left out.\<close>

definition interpolate ::
  "InterpolatorOptions \<Rightarrow> StationReport list \<Rightarrow> number list \<Rightarrow> number list \<Rightarrow> Interpolator" where
  "interpolate opts reports latWeights lonWeights p hours =
     (let base = map (basisFn opts) (map (\<lambda>report. norm' opts p (pos report)) reports);
          latSpeed = mmul base latWeights;
          lonSpeed = mmul base lonWeights;
          latMiles = latSpeed * hours;
          lonMiles = lonSpeed * hours;
          w = \<lparr>dir = degrees (Math_atan2 lonSpeed latSpeed), speed = Math_hypot latSpeed lonSpeed\<rparr>
      in (\<lparr>lat = lat p + degrees (latMiles / EARTH_RADIUS),
           lon = lon p + degrees (lonMiles / EARTH_RADIUS)\<rparr>, w))"

text \<open>
  \<open>solve\<close> of \<open>ml-matrix\<close> is a parameter: it takes the kernel matrix and a right-hand
  side and returns the weights, or \<open>None\<close> where the package throws.
\<close>

type_synonym Solver = "Matrix \<Rightarrow> number list \<Rightarrow> number list option"

definition makeInterpolator ::
  "Solver \<Rightarrow> InterpolatorOptions \<Rightarrow> StationReport list \<Rightarrow> Interpolator option" where
  "makeInterpolator solve opts reports =
     (let m = bases opts reports in
      case solve m (latSpeeds reports) of
        None \<Rightarrow> None
      | Some latWeights \<Rightarrow>
         (case solve m (lonSpeeds reports) of
            None \<Rightarrow> None
          | Some lonWeights \<Rightarrow> Some (interpolate opts reports latWeights lonWeights)))"

section \<open>Regions\<close>

datatype error = TypeError | RangeError | ShouldNotHappen

text \<open>
  \<open>Math.random\<close> reads an explicit source of draws: the state is the sequence of the
  draws still to come. A draw of \<open>Math.random\<close> lies in \<open>[0, 1)\<close>.
\<close>

type_synonym rng = "nat \<Rightarrow> real"

definition Math_random :: "rng \<Rightarrow> number \<times> rng" where
  "Math_random g = (Fin (g 0), \<lambda>n. g (Suc n))"

definition valid_rng :: "rng \<Rightarrow> bool" where
  "valid_rng g = (\<forall>n. 0 \<le> g n \<and> g n < 1)"

record Rect =
  bottom :: number
  top' :: number
  left :: number
  right :: number
  area :: number

definition Rect_constructor :: "Position \<Rightarrow> Position \<Rightarrow> Rect" where
  "Rect_constructor corner1 corner2 =
     (let b = Math_min (lat corner1) (lat corner2);
          t = Math_max (lat corner1) (lat corner2);
          l = Math_min (lon corner1) (lon corner2);
          r = Math_max (lon corner1) (lon corner2)
      in \<lparr>bottom = b, top' = t, left = l, right = r, area = (t - b) * (r - l)\<rparr>)"

definition Rect_contains :: "Rect \<Rightarrow> Position \<Rightarrow> bool" where
  "Rect_contains rect p =
     (bottom rect < lat p \<and> lat p < top' rect \<and> left rect < lon p \<and> lon p < right rect)"

text \<open>
  \<open>Rect.random\<close>: the first draw places the latitude, the second the longitude. The
  sums are exact here, so a draw in \<open>[0, 1)\<close> gives a point of the half-open box; in
  double arithmetic the product and the sum are rounded, and the point can land on
  any of the four bounds (\<open>rounded_sum_reaches_bounds\<close> below). The statements about
  \<open>Rect.random\<close> below are the ones that the rounding leaves intact: the point is
  finite and lies in the closed box.
\<close>

definition Rect_random :: "Rect \<Rightarrow> rng \<Rightarrow> Position \<times> rng" where
  "Rect_random rect g =
     (let (u1, g1) = Math_random g;
          (u2, g2) = Math_random g1
      in (\<lparr>lat = bottom rect + (top' rect - bottom rect) * u1,
           lon = left rect + (right rect - left rect) * u2\<rparr>, g2))"

record MultiRect =
  rects :: "Rect list"
  totalArea :: number

text \<open>\<open>reduce((a, b) => a + b)\<close> without an initial value throws a TypeError on an empty
  array.\<close>

fun reduce_add :: "number list \<Rightarrow> error + number" where
  "reduce_add [] = Inl TypeError"
| "reduce_add (x # xs) = Inr (foldl (\<lambda>a b. a + b) x xs)"

definition MultiRect_constructor :: "Rect list \<Rightarrow> error + MultiRect" where
  "MultiRect_constructor rs =
     (case reduce_add (map area rs) of
        Inl e \<Rightarrow> Inl e
      | Inr t \<Rightarrow> Inr \<lparr>rects = rs, totalArea = t\<rparr>)"

definition MultiRect_contains :: "MultiRect \<Rightarrow> Position \<Rightarrow> bool" where
  "MultiRect_contains m p = list_ex (\<lambda>rect. Rect_contains rect p) (rects m)"

text \<open>The loop of \<open>MultiRect.random\<close>, with the running threshold as an argument; running
  off the end of the list is the \<open>throw\<close> after the loop.\<close>

fun random_walk :: "number \<Rightarrow> number \<Rightarrow> Rect list \<Rightarrow> rng \<Rightarrow> error + Position \<times> rng" where
  "random_walk weight threshold [] g = Inl ShouldNotHappen"
| "random_walk weight threshold (rect # rest) g =
     (let threshold' = threshold + area rect
      in if weight \<le> threshold' then Inr (Rect_random rect g)
         else random_walk weight threshold' rest g)"

definition MultiRect_random :: "MultiRect \<Rightarrow> rng \<Rightarrow> error + Position \<times> rng" where
  "MultiRect_random m g =
     (let (u, g1) = Math_random g;
          weight = u * totalArea m
      in random_walk weight (Fin 0) (rects m) g1)"

record Stream =
  pos :: Position
  ttl :: number

definition randomStream :: "MultiRect \<Rightarrow> number \<Rightarrow> number \<Rightarrow> rng \<Rightarrow> error + Stream \<times> rng" where
  "randomStream m minTicks maxTicks g =
     (case MultiRect_random m g of
        Inl e \<Rightarrow> Inl e
      | Inr (p, g1) \<Rightarrow>
         (let (u, g2) = Math_random g1
          in Inr (\<lparr>pos = p, ttl = minTicks + Math_trunc (u * Math_abs (maxTicks - minTicks))\<rparr>, g2)))"

text \<open>The object literal \<open>{ lat: la, lon: lo }\<close> of two finite numbers.\<close>

definition LatLon :: "real \<Rightarrow> real \<Rightarrow> Position" where
  "LatLon la lo = \<lparr>lat = Fin la, lon = Fin lo\<rparr>"

definition USA_OUTER_rects :: "Rect list" where
  "USA_OUTER_rects =
    [Rect_constructor (LatLon 32.654 (- 117.133)) (LatLon 48.966 (- 92.09)),
     Rect_constructor (LatLon 29.11 (- 81.394)) (LatLon 41.608 (- 92.09)),
     Rect_constructor (LatLon 41.608 (- 83.093)) (LatLon 46.786 (- 92.09)),
     Rect_constructor (LatLon 47.969 (- 89.67)) (LatLon 46.786 (- 92.09)),
     Rect_constructor (LatLon 48.9988 (- 123.027)) (LatLon 37.774 (- 117.133)),
     Rect_constructor (LatLon 48.254 (- 124.261)) (LatLon 39.452 (- 123.027)),
     Rect_constructor (LatLon 37.774 (- 120.648)) (LatLon 34.014 (- 117.113)),
     Rect_constructor (LatLon 37.774 (- 120.648)) (LatLon 35.905 (- 121.904)),
     Rect_constructor (LatLon 32.654 (- 92.09)) (LatLon 31.32 (- 115.095)),
     Rect_constructor (LatLon 26.21 (- 92.09)) (LatLon 31.32 (- 106.41)),
     Rect_constructor (LatLon 41.608 (- 71.031)) (LatLon 44.67 (- 74.97)),
     Rect_constructor (LatLon 43.26 (- 74.97)) (LatLon 44.26 (- 75.9)),
     Rect_constructor (LatLon 41.608 (- 76.117)) (LatLon 43.26 (- 79.033)),
     Rect_constructor (LatLon 41.608 (- 79.033)) (LatLon 42.123 (- 81.3)),
     Rect_constructor (LatLon 41.608 (- 81.394)) (LatLon 34.718 (- 75.987)),
     Rect_constructor (LatLon 47.16 (- 67.85)) (LatLon 44.32 (- 69.77)),
     Rect_constructor (LatLon 43.07 (- 71.031)) (LatLon 45.089 (- 69.77)),
     Rect_constructor (LatLon 36.84 (- 75.987)) (LatLon 41.608 (- 71.16)),
     Rect_constructor (LatLon 34.718 (- 81.394)) (LatLon 32.77 (- 79.91)),
     Rect_constructor (LatLon 34.718 (- 79.91)) (LatLon 33.7 (- 77.84)),
     Rect_constructor (LatLon 29.11 (- 81.394)) (LatLon 27.12 (- 82.48)),
     Rect_constructor (LatLon 27.12 (- 81.79)) (LatLon 25.07 (- 80.18)),
     Rect_constructor (LatLon 27.12 (- 81.21)) (LatLon 28.61 (- 80.8))]"

text \<open>The global region: the value that \<open>new MultiRect\<close> builds from the list above
  (the list is not empty, so the constructor does not throw).\<close>

definition USA_OUTER :: MultiRect where
  "USA_OUTER =
     \<lparr>rects = USA_OUTER_rects,
      totalArea = foldl (\<lambda>a b. a + b) (area (hd USA_OUTER_rects)) (map area (tl USA_OUTER_rects))\<rparr>"

section \<open>The particle simulator\<close>

text \<open>
  The state that the function returned by \<open>makeUpdate\<close> captures: the tick duration, the
  two spawn bounds and the pool of streams.
\<close>

record Update =
  tickDuration :: number
  minTicks :: number
  maxTicks :: number
  streams :: "Stream list"

text \<open>\<open>new Array(numPoints).fill(null).map(randomStream)\<close>: one spawn per slot, in index
  order.\<close>

fun fill_streams :: "nat \<Rightarrow> number \<Rightarrow> number \<Rightarrow> rng \<Rightarrow> error + Stream list \<times> rng" where
  "fill_streams 0 lo hi g = Inr ([], g)"
| "fill_streams (Suc n) lo hi g =
     (case randomStream USA_OUTER lo hi g of
        Inl e \<Rightarrow> Inl e
      | Inr (s, g1) \<Rightarrow>
         (case fill_streams n lo hi g1 of
            Inl e \<Rightarrow> Inl e
          | Inr (ss, g2) \<Rightarrow> Inr (s # ss, g2)))"

subsection \<open>Rounding to the double format\<close>

text \<open>
  The doubles (IEEE 754 binary64) with \<open>2^e \<le> \<bar>x\<bar> < 2^(e+1)\<close> are the multiples of
  \<open>2^(e-52)\<close>; below \<open>2^(-1022)\<close> (the subnormal range) they are the multiples of
  \<open>2^(-1074)\<close>. \<open>binade x\<close> is that exponent \<open>e\<close>, not below \<open>-1022\<close>.
\<close>

definition binade :: "real \<Rightarrow> int" where
  "binade x = (if x = 0 then - 1022 else max \<lfloor>log 2 \<bar>x\<bar>\<rfloor> (- 1022))"

text \<open>The integer nearest to \<open>m\<close>, the even one of the two when \<open>m\<close> lies halfway.\<close>

definition round_even :: "real \<Rightarrow> int" where
  "round_even m =
     (let r = \<lfloor>m\<rfloor>; d = m - of_int r
      in if d < 1 / 2 then r else if 1 / 2 < d then r + 1 else if even r then r else r + 1)"

text \<open>
  \<open>fl64 x\<close> is the double nearest to the real \<open>x\<close> (round to nearest, ties to even), the
  rounding of every arithmetic operation and of every decimal literal of JavaScript. A
  result of magnitude \<open>2^1024\<close> or more overflows to an infinity.
\<close>

definition fl64 :: "real \<Rightarrow> number" where
  "fl64 x =
     (if x = 0 then Fin 0
      else let q = power_int 2 (binade x - 52);
               y = of_int (round_even (x / q)) * q
           in if 2 ^ 1024 \<le> \<bar>y\<bar> then (if 0 < x then PInf else NInf) else Fin y)"

fun round64 :: "number \<Rightarrow> number" where
  "round64 (Fin a) = fl64 a"
| "round64 x = x"

text \<open>
  The product \<open>a * b\<close> and the quotient \<open>a / b\<close> of two doubles, as the machine returns
  them. \<open>negZero\<close> tells that the divisor, when it is zero, is the negative zero: the
  quotient by it has the opposite sign.
\<close>

definition times64 :: "number \<Rightarrow> number \<Rightarrow> number" where
  "times64 a b = round64 (a * b)"

definition divide64 :: "number \<Rightarrow> number \<Rightarrow> bool \<Rightarrow> number" where
  "divide64 a b negZero = (if b = Fin 0 \<and> negZero then - (a / b) else round64 (a / b))"

text \<open>
  \<open>makeUpdate\<close> with the three URL parameters as arguments (\<open>points\<close>, \<open>window\<close>,
  \<open>tick\<close>); \<open>hi\<close> and \<open>lo\<close> are the constants \<open>maxTicks\<close> and \<open>minTicks\<close> of the
  source, \<open>tickDur\<close> is \<open>tickDuration\<close>, and \<open>tickNegZero\<close> tells that \<open>tick\<close> is the
  negative zero. The literal \<open>0.7\<close> is the double nearest to \<open>7/10\<close>. \<open>new Array(n)\<close>
  throws a RangeError unless \<open>0 \<le> n < 2^32\<close>.
\<close>

definition makeUpdate ::
  "int \<Rightarrow> number \<Rightarrow> number \<Rightarrow> bool \<Rightarrow> rng \<Rightarrow> error + Update \<times> rng" where
  "makeUpdate numPoints maxWindow tickDur tickNegZero g =
     (let hi = Math_min (Fin 10) (Math_trunc (divide64 maxWindow tickDur tickNegZero));
          lo = Math_min (Fin 5) (Math_trunc (times64 (round64 (Fin 0.7)) hi))
      in if numPoints < 0 \<or> 4294967295 < numPoints then Inl RangeError
         else (case fill_streams (nat numPoints) lo hi g of
                 Inl e \<Rightarrow> Inl e
               | Inr (ss, g1) \<Rightarrow>
                   Inr (\<lparr>tickDuration = tickDur, minTicks = lo, maxTicks = hi, streams = ss\<rparr>, g1)))"

text \<open>The body of the loop of the update function, for one stream: the new stream, the
  segment pushed to \<open>deltas\<close> and the random source after it.\<close>

definition update_stream ::
  "Update \<Rightarrow> Interpolator \<Rightarrow> Stream \<Rightarrow> rng \<Rightarrow> error + Stream \<times> (Position \<times> Position) \<times> rng" where
  "update_stream u interpolator stream g =
     (case (if ttl stream \<le> Fin 0 \<or> \<not> MultiRect_contains USA_OUTER (pos stream)
            then randomStream USA_OUTER (minTicks u) (maxTicks u) g
            else Inr (stream, g)) of
        Inl e \<Rightarrow> Inl e
      | Inr (stream1, g1) \<Rightarrow>
         (let prevPos = pos stream1;
              (nextPos, w) = interpolator prevPos (tickDuration u);
              stream2 = stream1\<lparr>pos := nextPos, ttl := ttl stream1 - Fin 1\<rparr>
          in Inr (stream2, (prevPos, pos stream2), g1)))"

text \<open>The loop over the pool, in index order. A spawn that throws ends the tick with
  its error (the streams already processed stay changed in the source; with draws in
  \<open>[0, 1)\<close> no spawn throws, as shown below).\<close>

fun update_loop ::
  "Update \<Rightarrow> Interpolator \<Rightarrow> Stream list \<Rightarrow> rng
    \<Rightarrow> error + Stream list \<times> (Position \<times> Position) list \<times> rng" where
  "update_loop u interpolator [] g = Inr ([], [], g)"
| "update_loop u interpolator (stream # rest) g =
     (case update_stream u interpolator stream g of
        Inl e \<Rightarrow> Inl e
      | Inr (stream', delta, g1) \<Rightarrow>
         (case update_loop u interpolator rest g1 of
            Inl e \<Rightarrow> Inl e
          | Inr (ss, deltas, g2) \<Rightarrow> Inr (stream' # ss, delta # deltas, g2)))"

text \<open>One call of the update function: the segments, the simulator with its pool
  updated, and the random source after the tick.\<close>

definition update ::
  "Update \<Rightarrow> Interpolator \<Rightarrow> rng \<Rightarrow> error + (Position \<times> Position) list \<times> Update \<times> rng" where
  "update u interpolator g =
     (case update_loop u interpolator (streams u) g of
        Inl e \<Rightarrow> Inl e
      | Inr (ss, deltas, g1) \<Rightarrow> Inr (deltas, u\<lparr>streams := ss\<rparr>, g1))"


section \<open>Auxiliary notions for the statements\<close>

text \<open>A report whose wind speed and direction are both finite.\<close>

definition windFinite :: "StationReport \<Rightarrow> bool" where
  "windFinite r = (isFinite (speed (wind r)) \<and> isFinite (dir (wind r)))"

text \<open>The product of the kernel matrix with a weight vector, row by row.\<close>

definition mat_vec :: "Matrix \<Rightarrow> number list \<Rightarrow> number list" where
  "mat_vec m w = map (\<lambda>row. mmul row w) m"

text \<open>A matrix with \<open>n\<close> rows of \<open>n\<close> entries.\<close>

definition square :: "nat \<Rightarrow> Matrix \<Rightarrow> bool" where
  "square n m = (length m = n \<and> (\<forall>a < n. length (m ! a) = n))"

text \<open>The entry of the kernel matrix at row \<open>a\<close> and column \<open>b\<close>, as the two loops of
  \<open>makeInterpolator\<close> leave it.\<close>

definition kernel :: "InterpolatorOptions \<Rightarrow> StationReport list \<Rightarrow> nat \<Rightarrow> nat \<Rightarrow> number" where
  "kernel opts reports a b =
     (if a = b then Fin 1
      else if b < a
      then basisFn opts (norm' opts (StationReport.pos (reports ! a)) (StationReport.pos (reports ! b)))
      else basisFn opts (norm' opts (StationReport.pos (reports ! b)) (StationReport.pos (reports ! a))))"

text \<open>A solver that returns the right-hand side: it solves every system whose matrix
  is an identity matrix exactly, the empty system among them.\<close>

definition rhs_solver :: Solver where
  "rhs_solver m v = Some v"

text \<open>A direct solver for systems of two unknowns, by Cramer's rule; it fails on a
  determinant that is zero or not finite, and on every other dimension.\<close>

definition cramer_solver :: Solver where
  "cramer_solver m v =
     (case (m, v) of
        ([[a, b], [c, d]], [x, y]) \<Rightarrow>
          (let det = a * d - b * c
           in if det = Fin 0 \<or> \<not> isFinite det then None
              else Some [(x * d - b * y) / det, (a * y - c * x) / det])
      | _ \<Rightarrow> None)"

text \<open>A random source whose draws are all the same.\<close>

definition const_rng :: "real \<Rightarrow> rng" where
  "const_rng c = (\<lambda>n. c)"

text \<open>The running threshold of \<open>MultiRect.random\<close> after the rect of index \<open>k\<close>, started
  from \<open>th\<close>.\<close>

definition cumulative :: "number \<Rightarrow> Rect list \<Rightarrow> nat \<Rightarrow> number" where
  "cumulative th rs k = foldl (\<lambda>a b. a + b) th (map area (take (Suc k) rs))"

text \<open>A rect as the constructor builds it from finite corners: finite bounds in
  order, and the area their product.\<close>

definition rectOK :: "Rect \<Rightarrow> bool" where
  "rectOK rect =
     (case (bottom rect, top' rect, left rect, right rect) of
        (Fin b, Fin t, Fin l, Fin r) \<Rightarrow>
          b \<le> t \<and> l \<le> r \<and> area rect = Fin ((t - b) * (r - l))
      | _ \<Rightarrow> False)"

text \<open>\<open>Math.floor\<close>, for the comparison with the bounds as the specification words
  them.\<close>

fun Math_floor :: "number \<Rightarrow> number" where
  "Math_floor (Fin a) = Fin (of_int \<lfloor>a\<rfloor>)"
| "Math_floor x = x"

section \<open>Properties of the geodesic primitives\<close>

lemma radians_Fin [simp]: "radians (Fin a) = Fin (a * pi / 180)"
  by (simp add: radians_def)

lemma degrees_Fin [simp]: "degrees (Fin a) = Fin (a * 180 / pi)"
  by (simp add: degrees_def)

lemma hav_Fin [simp]: "hav (Fin a) = Fin ((1 - cos a) / 2)"
  by (simp add: hav_def minus_number_def)

lemma invHav_Fin: "invHav (Fin x) = Fin (arccos (min 1 (max (- 1) (1 - 2 * x))))"
  by (simp add: invHav_def minus_number_def min_def max_def)

lemma haversineDist_Fin:
  "haversineDist \<lparr>lat = Fin a1, lon = Fin o1\<rparr> \<lparr>lat = Fin a2, lon = Fin o2\<rparr> =
     Fin (arccos (min 1 (max (- 1) (1 - 2 * ((1 - cos ((a2 - a1) * pi / 180)) / 2
        + cos (a1 * pi / 180) * cos (a2 * pi / 180) * ((1 - cos ((o2 - o1) * pi / 180)) / 2))))))"
  by (simp add: haversineDist_def minus_number_def invHav_Fin Let_def)

lemma isFinite_iff: "isFinite x \<longleftrightarrow> (\<exists>a. x = Fin a)"
  by (cases x) simp_all

lemma finitePos_cases: "finitePos p \<Longrightarrow> \<exists>a b. p = \<lparr>lat = Fin a, lon = Fin b\<rparr>"
proof -
  assume h: "finitePos p"
  obtain x y where p: "p = \<lparr>lat = x, lon = y\<rparr>" by (cases p) auto
  from h p show ?thesis by (cases x; cases y) (simp_all add: finitePos_def)
qed

lemma finitePos_LatLon [simp]: "finitePos (LatLon a b)"
  by (simp add: finitePos_def LatLon_def)

lemma haversineDist_self: "finitePos p \<Longrightarrow> haversineDist p p = Fin 0"
proof -
  assume "finitePos p"
  then obtain a b where p: "p = \<lparr>lat = Fin a, lon = Fin b\<rparr>"
    using finitePos_cases by blast
  show ?thesis unfolding p haversineDist_Fin by simp
qed

text \<open>
  C8. For finite positions \<open>a\<close> and \<open>b\<close>, the great-circle distance \<open>haversineDist\<close>
  of a position to itself is 0, the distance is symmetric, and it lies between 0 and
  \<open>\<pi>\<close>.
\<close>

theorem haversineDist_metric:
  assumes "finitePos a" and "finitePos b"
  shows "haversineDist a a = Fin 0 \<and> haversineDist a b = haversineDist b a
    \<and> Fin 0 \<le> haversineDist a b \<and> haversineDist a b \<le> Fin pi"
proof -
  obtain a1 o1 where a: "a = \<lparr>lat = Fin a1, lon = Fin o1\<rparr>"
    using finitePos_cases [OF assms(1)] by blast
  obtain a2 o2 where b: "b = \<lparr>lat = Fin a2, lon = Fin o2\<rparr>"
    using finitePos_cases [OF assms(2)] by blast
  have zero: "haversineDist a a = Fin 0"
    unfolding a haversineDist_Fin by simp
  have c1: "cos ((a1 - a2) * pi / 180) = cos ((a2 - a1) * pi / 180)"
    by (metis cos_minus minus_diff_eq minus_divide_left minus_mult_left)
  have c2: "cos ((o1 - o2) * pi / 180) = cos ((o2 - o1) * pi / 180)"
    by (metis cos_minus minus_diff_eq minus_divide_left minus_mult_left)
  have sym: "haversineDist a b = haversineDist b a"
    unfolding a b haversineDist_Fin c1 c2 by (simp add: mult.commute)
  have lower: "Fin 0 \<le> haversineDist a b"
    unfolding a b haversineDist_Fin by (simp add: arccos_lbound)
  have upper: "haversineDist a b \<le> Fin pi"
    unfolding a b haversineDist_Fin by (simp add: arccos_ubound)
  show ?thesis using zero sym lower upper by simp
qed

theorem haversineDist_metric_witness:
  "finitePos (LatLon 40 (- 100)) \<and> finitePos (LatLon 30 (- 90))
   \<and> haversineDist (LatLon 40 (- 100)) (LatLon 40 (- 100)) = Fin 0
   \<and> haversineDist (LatLon 40 (- 100)) (LatLon 30 (- 90))
       = haversineDist (LatLon 30 (- 90)) (LatLon 40 (- 100))
   \<and> Fin 0 \<le> haversineDist (LatLon 40 (- 100)) (LatLon 30 (- 90))
   \<and> haversineDist (LatLon 40 (- 100)) (LatLon 30 (- 90)) \<le> Fin pi"
proof -
  have a: "finitePos (LatLon 40 (- 100))" by simp
  have b: "finitePos (LatLon 30 (- 90))" by simp
  show ?thesis using haversineDist_metric [OF a b] a b by blast
qed


section \<open>Properties of the regions\<close>

lemma Math_random_const [simp]: "Math_random (const_rng c) = (Fin c, const_rng c)"
  by (simp add: Math_random_def const_rng_def)

lemma valid_rng_const [simp]: "valid_rng (const_rng c) \<longleftrightarrow> 0 \<le> c \<and> c < 1"
  by (simp add: valid_rng_def const_rng_def)

lemma valid_rng_tl: "valid_rng g \<Longrightarrow> valid_rng (\<lambda>n. g (Suc n))"
  by (simp add: valid_rng_def)

lemma Fin0_plus [simp]: "Fin 0 + x = x"
  by (cases x) simp_all

lemma cumulative_0 [simp]: "cumulative th (r # rs) 0 = th + area r"
  by (simp add: cumulative_def)

lemma cumulative_Suc [simp]: "cumulative th (r # rs) (Suc k) = cumulative (th + area r) rs k"
  by (simp add: cumulative_def)

lemma random_walk_first:
  "rs \<noteq> [] \<Longrightarrow> weight \<le> foldl (\<lambda>a b. a + b) th (map area rs) \<Longrightarrow>
   \<exists>k < length rs. random_walk weight th rs g = Inr (Rect_random (rs ! k) g)
      \<and> weight \<le> cumulative th rs k \<and> (\<forall>j < k. \<not> weight \<le> cumulative th rs j)"
proof (induction rs arbitrary: th)
  case Nil
  then show ?case by simp
next
  case (Cons r rs)
  show ?case
  proof (cases "weight \<le> th + area r")
    case True
    then have "random_walk weight th (r # rs) g = Inr (Rect_random ((r # rs) ! 0) g)
      \<and> weight \<le> cumulative th (r # rs) 0 \<and> (\<forall>j < 0. \<not> weight \<le> cumulative th (r # rs) j)"
      by simp
    then show ?thesis by blast
  next
    case False
    then have ne: "rs \<noteq> []" using Cons.prems(2) by (cases rs) auto
    from Cons.prems(2) have "weight \<le> foldl (\<lambda>a b. a + b) (th + area r) (map area rs)" by simp
    from Cons.IH [OF ne this] obtain k where k: "k < length rs"
      "random_walk weight (th + area r) rs g = Inr (Rect_random (rs ! k) g)"
      "weight \<le> cumulative (th + area r) rs k"
      "\<forall>j < k. \<not> weight \<le> cumulative (th + area r) rs j" by blast
    have "\<forall>j < Suc k. \<not> weight \<le> cumulative th (r # rs) j"
    proof (intro allI impI)
      fix j assume "j < Suc k"
      then show "\<not> weight \<le> cumulative th (r # rs) j"
        using False k(4) by (cases j) auto
    qed
    with k False have "Suc k < length (r # rs) \<and>
      random_walk weight th (r # rs) g = Inr (Rect_random ((r # rs) ! Suc k) g)
      \<and> weight \<le> cumulative th (r # rs) (Suc k) \<and> (\<forall>j < Suc k. \<not> weight \<le> cumulative th (r # rs) j)"
      by simp
    then show ?thesis by blast
  qed
qed

lemma rectOK_area: "rectOK rect \<Longrightarrow> \<exists>a. area rect = Fin a \<and> 0 \<le> a"
  by (auto simp: rectOK_def split: number.splits)

lemma foldl_area_finite:
  "\<forall>rect \<in> set rs. rectOK rect \<Longrightarrow> 0 \<le> t \<Longrightarrow>
   \<exists>s. foldl (\<lambda>a b. a + b) (Fin t) (map area rs) = Fin s \<and> 0 \<le> s"
proof (induction rs arbitrary: t)
  case Nil
  then show ?case by simp
next
  case (Cons r rs)
  then obtain a where a: "area r = Fin a" "0 \<le> a" using rectOK_area by fastforce
  have "0 \<le> t + a" using Cons.prems(2) a by simp
  from Cons.IH [OF _ this] Cons.prems(1) a show ?case by simp
qed

lemma Rect_constructor_OK: "finitePos c1 \<Longrightarrow> finitePos c2 \<Longrightarrow> rectOK (Rect_constructor c1 c2)"
proof -
  assume "finitePos c1" "finitePos c2"
  then obtain a1 o1 a2 o2 where c: "c1 = \<lparr>lat = Fin a1, lon = Fin o1\<rparr>" "c2 = \<lparr>lat = Fin a2, lon = Fin o2\<rparr>"
    using finitePos_cases by blast
  show ?thesis unfolding c
    by (simp add: Rect_constructor_def rectOK_def Let_def minus_number_def)
qed


lemma MultiRect_constructor_Inr:
  "MultiRect_constructor rs = Inr m \<Longrightarrow>
   rs \<noteq> [] \<and> rects m = rs \<and> totalArea m = foldl (\<lambda>a b. a + b) (Fin 0) (map area rs)"
  by (cases rs) (auto simp: MultiRect_constructor_def)

lemma MultiRect_random_first:
  assumes m: "rects m \<noteq> []" "totalArea m = foldl (\<lambda>a b. a + b) (Fin 0) (map area (rects m))"
    and ok: "\<forall>rect \<in> set (rects m). rectOK rect"
    and g: "valid_rng g"
  shows "\<exists>k < length (rects m).
      MultiRect_random m g = Inr (Rect_random (rects m ! k) (\<lambda>n. g (Suc n)))
      \<and> Fin (g 0) * totalArea m \<le> cumulative (Fin 0) (rects m) k
      \<and> (\<forall>j < k. \<not> Fin (g 0) * totalArea m \<le> cumulative (Fin 0) (rects m) j)"
proof -
  obtain s where s: "totalArea m = Fin s" "0 \<le> s"
    using foldl_area_finite [OF ok, of 0] m(2) by auto
  have "g 0 * s \<le> 1 * s"
    using g s(2) by (intro mult_right_mono) (auto simp: valid_rng_def less_imp_le)
  then have "Fin (g 0) * totalArea m \<le> foldl (\<lambda>a b. a + b) (Fin 0) (map area (rects m))"
    using s m(2) by simp
  from random_walk_first [OF m(1) this]
  show ?thesis by (simp add: MultiRect_random_def Math_random_def)
qed

lemma Rect_random_closed_box:
  assumes ok: "rectOK rect" and g: "valid_rng g"
  shows "\<exists>b t l r. bottom rect = Fin b \<and> top' rect = Fin t \<and> left rect = Fin l \<and> right rect = Fin r
     \<and> Rect_random rect g =
         (\<lparr>lat = Fin (b + (t - b) * g 0), lon = Fin (l + (r - l) * g 1)\<rparr>, \<lambda>n. g (Suc (Suc n)))
     \<and> b \<le> b + (t - b) * g 0 \<and> b + (t - b) * g 0 \<le> t
     \<and> l \<le> l + (r - l) * g 1 \<and> l + (r - l) * g 1 \<le> r"
proof -
  from ok obtain b t l r where f: "bottom rect = Fin b" "top' rect = Fin t" "left rect = Fin l"
    "right rect = Fin r" "b \<le> t" "l \<le> r"
    by (auto simp: rectOK_def split: number.splits)
  have bt: "0 \<le> t - b" and lr: "0 \<le> r - l" using f(5,6) by simp_all
  have g0: "0 \<le> g 0" "g 0 \<le> 1" and g1: "0 \<le> g 1" "g 1 \<le> 1"
    using g by (auto simp: valid_rng_def less_imp_le)
  have 1: "(t - b) * g 0 \<le> (t - b) * 1" using bt g0 by (intro mult_left_mono) auto
  have 2: "(r - l) * g 1 \<le> (r - l) * 1" using lr g1 by (intro mult_left_mono) auto
  have 3: "0 \<le> (t - b) * g 0" "0 \<le> (r - l) * g 1" using bt lr g0 g1 by auto
  have "Rect_random rect g =
         (\<lparr>lat = Fin (b + (t - b) * g 0), lon = Fin (l + (r - l) * g 1)\<rparr>, \<lambda>n. g (Suc (Suc n)))"
    by (simp add: Rect_random_def Math_random_def f minus_number_def)
  with f 1 2 3 show ?thesis by auto
qed

lemma Fin_less_simps [simp]: "Fin a < Fin b \<longleftrightarrow> a < b" "Fin a \<le> Fin b \<longleftrightarrow> a \<le> b"
  by simp_all

text \<open>
  C7 (as amended). For a \<open>MultiRect\<close> built from a nonempty list of rects with finite
  bounds, and draws in \<open>[0, 1)\<close>, \<open>MultiRect.random\<close> never reaches its error branch:
  the weight \<open>w\<close> is the first draw times \<open>totalArea\<close>, with \<open>0 \<le> w \<le> totalArea\<close>; the
  result is \<open>Rect.random\<close> of the first rect whose cumulative area is at least \<open>w\<close>, on
  the next two draws; and the point lies in the closed box
  \<open>[bottom, top] \<times> [left, right]\<close> of that rect. Nothing more is stated about the
  strict-interior \<open>contains\<close> test: a coordinate can land on a bound of the rect (the
  zero draw below; in double arithmetic also the draws next to 0 and next to 1, whose
  sums round onto a bound).
\<close>

theorem MultiRect_random_in_region:
  assumes c: "MultiRect_constructor rs = Inr m"
    and ok: "\<forall>rect \<in> set rs. rectOK rect"
    and g: "valid_rng g"
  shows "\<exists>k p g'. k < length rs
     \<and> MultiRect_random m g = Inr (p, g')
     \<and> (p, g') = Rect_random (rs ! k) (\<lambda>n. g (Suc n))
     \<and> Fin 0 \<le> Fin (g 0) * totalArea m \<and> Fin (g 0) * totalArea m \<le> totalArea m
     \<and> Fin (g 0) * totalArea m \<le> cumulative (Fin 0) rs k
     \<and> (\<forall>j < k. \<not> Fin (g 0) * totalArea m \<le> cumulative (Fin 0) rs j)
     \<and> bottom (rs ! k) \<le> lat p \<and> lat p \<le> top' (rs ! k)
     \<and> left (rs ! k) \<le> lon p \<and> lon p \<le> right (rs ! k)"
proof -
  from MultiRect_constructor_Inr [OF c]
  have m: "rs \<noteq> []" "rects m = rs" "totalArea m = foldl (\<lambda>a b. a + b) (Fin 0) (map area rs)"
    by simp_all
  have ok': "\<forall>rect \<in> set (rects m). rectOK rect" using ok m(2) by simp
  from MultiRect_random_first [OF _ _ ok' g] m
  obtain k where k: "k < length rs"
    "MultiRect_random m g = Inr (Rect_random (rs ! k) (\<lambda>n. g (Suc n)))"
    "Fin (g 0) * totalArea m \<le> cumulative (Fin 0) rs k"
    "\<forall>j < k. \<not> Fin (g 0) * totalArea m \<le> cumulative (Fin 0) rs j"
    by auto
  obtain s where s: "totalArea m = Fin s" "0 \<le> s"
    using foldl_area_finite [OF ok, of 0] m(3) by auto
  have g0: "0 \<le> g 0" "g 0 \<le> 1" using g by (auto simp: valid_rng_def less_imp_le)
  have "g 0 * s \<le> 1 * s" using g0 s(2) by (intro mult_right_mono) auto
  then have w: "Fin 0 \<le> Fin (g 0) * totalArea m" "Fin (g 0) * totalArea m \<le> totalArea m"
    using s g0 by simp_all
  have rk: "rectOK (rs ! k)" using ok k(1) by simp
  from Rect_random_closed_box [OF rk valid_rng_tl [OF g]]
  obtain b t l r where box: "bottom (rs ! k) = Fin b" "top' (rs ! k) = Fin t"
    "left (rs ! k) = Fin l" "right (rs ! k) = Fin r"
    "Rect_random (rs ! k) (\<lambda>n. g (Suc n)) =
       (\<lparr>lat = Fin (b + (t - b) * g 1), lon = Fin (l + (r - l) * g 2)\<rparr>, \<lambda>n. g (Suc (Suc (Suc n))))"
    "b \<le> b + (t - b) * g 1" "b + (t - b) * g 1 \<le> t"
    "l \<le> l + (r - l) * g 2" "l + (r - l) * g 2 \<le> r"
    by (auto simp: numeral_2_eq_2)
  define p where "p = \<lparr>lat = Fin (b + (t - b) * g 1), lon = Fin (l + (r - l) * g 2)\<rparr>"
  define g' where "g' = (\<lambda>n. g (Suc (Suc (Suc n))))"
  have "k < length rs
     \<and> MultiRect_random m g = Inr (p, g')
     \<and> (p, g') = Rect_random (rs ! k) (\<lambda>n. g (Suc n))
     \<and> Fin 0 \<le> Fin (g 0) * totalArea m \<and> Fin (g 0) * totalArea m \<le> totalArea m
     \<and> Fin (g 0) * totalArea m \<le> cumulative (Fin 0) rs k
     \<and> (\<forall>j < k. \<not> Fin (g 0) * totalArea m \<le> cumulative (Fin 0) rs j)
     \<and> bottom (rs ! k) \<le> lat p \<and> lat p \<le> top' (rs ! k)
     \<and> left (rs ! k) \<le> lon p \<and> lon p \<le> right (rs ! k)"
    using k w box by (simp add: p_def g'_def)
  then show ?thesis by blast
qed

lemma unit_rect: "Rect_constructor (LatLon 0 0) (LatLon 1 1) =
   \<lparr>bottom = Fin 0, top' = Fin 1, left = Fin 0, right = Fin 1, area = Fin 1\<rparr>"
  by (simp add: Rect_constructor_def LatLon_def Let_def minus_number_def)

text \<open>
  C7 as stated fails on a zero draw: for the unit square and draws that are all 0 the
  sampled point is the corner \<open>(0, 0)\<close>, which the strict-interior test rejects.
\<close>

theorem MultiRect_random_boundary_counterexample:
  "MultiRect_constructor [Rect_constructor (LatLon 0 0) (LatLon 1 1)]
     = Inr \<lparr>rects = [Rect_constructor (LatLon 0 0) (LatLon 1 1)], totalArea = Fin 1\<rparr>
   \<and> Fin 0 < area (Rect_constructor (LatLon 0 0) (LatLon 1 1))
   \<and> valid_rng (const_rng 0)
   \<and> MultiRect_random \<lparr>rects = [Rect_constructor (LatLon 0 0) (LatLon 1 1)], totalArea = Fin 1\<rparr>
        (const_rng 0) = Inr (LatLon 0 0, const_rng 0)
   \<and> \<not> MultiRect_contains \<lparr>rects = [Rect_constructor (LatLon 0 0) (LatLon 1 1)], totalArea = Fin 1\<rparr>
        (LatLon 0 0)"
  unfolding unit_rect
  by (simp add: MultiRect_constructor_def MultiRect_random_def Rect_random_def
      MultiRect_contains_def Rect_contains_def LatLon_def minus_number_def Let_def)

lemma strip_rect: "Rect_constructor (LatLon 0 1) (LatLon 1 3) =
   \<lparr>bottom = Fin 0, top' = Fin 1, left = Fin 1, right = Fin 3, area = Fin 2\<rparr>"
  by (simp add: Rect_constructor_def LatLon_def Let_def minus_number_def)

theorem MultiRect_random_in_region_witness:
  "MultiRect_constructor
      [Rect_constructor (LatLon 0 0) (LatLon 1 1), Rect_constructor (LatLon 0 1) (LatLon 1 3)]
     = Inr \<lparr>rects = [Rect_constructor (LatLon 0 0) (LatLon 1 1),
                     Rect_constructor (LatLon 0 1) (LatLon 1 3)], totalArea = Fin 3\<rparr>
   \<and> rectOK (Rect_constructor (LatLon 0 0) (LatLon 1 1))
   \<and> rectOK (Rect_constructor (LatLon 0 1) (LatLon 1 3))
   \<and> valid_rng (const_rng (1 / 2))
   \<and> MultiRect_random \<lparr>rects = [Rect_constructor (LatLon 0 0) (LatLon 1 1),
                     Rect_constructor (LatLon 0 1) (LatLon 1 3)], totalArea = Fin 3\<rparr>
        (const_rng (1 / 2)) = Inr (LatLon (1 / 2) 2, const_rng (1 / 2))
   \<and> (\<exists>k. k < 2
        \<and> (LatLon (1 / 2) 2, const_rng (1 / 2))
            = Rect_random ([Rect_constructor (LatLon 0 0) (LatLon 1 1),
                     Rect_constructor (LatLon 0 1) (LatLon 1 3)] ! k) (const_rng (1 / 2))
        \<and> left ([Rect_constructor (LatLon 0 0) (LatLon 1 1),
                     Rect_constructor (LatLon 0 1) (LatLon 1 3)] ! k) \<le> Fin 2
        \<and> Fin 2 \<le> right ([Rect_constructor (LatLon 0 0) (LatLon 1 1),
                     Rect_constructor (LatLon 0 1) (LatLon 1 3)] ! k))"
proof -
  let ?rs = "[Rect_constructor (LatLon 0 0) (LatLon 1 1), Rect_constructor (LatLon 0 1) (LatLon 1 3)]"
  let ?m = "\<lparr>rects = ?rs, totalArea = Fin 3\<rparr>"
  have c: "MultiRect_constructor ?rs = Inr ?m"
    unfolding unit_rect strip_rect by (simp add: MultiRect_constructor_def)
  have ok1: "rectOK (Rect_constructor (LatLon 0 0) (LatLon 1 1))"
    and ok2: "rectOK (Rect_constructor (LatLon 0 1) (LatLon 1 3))"
    by (simp_all add: Rect_constructor_OK)
  then have ok: "\<forall>rect \<in> set ?rs. rectOK rect" by simp
  have g: "valid_rng (const_rng (1 / 2))" by simp
  have r: "MultiRect_random ?m (const_rng (1 / 2)) = Inr (LatLon (1 / 2) 2, const_rng (1 / 2))"
    unfolding unit_rect strip_rect
    by (simp add: MultiRect_random_def Rect_random_def LatLon_def minus_number_def Let_def)
  from MultiRect_random_in_region [OF c ok g] obtain k p g' where k: "k < length ?rs"
    "MultiRect_random ?m (const_rng (1 / 2)) = Inr (p, g')"
    "(p, g') = Rect_random (?rs ! k) (\<lambda>n. const_rng (1 / 2) (Suc n))"
    "left (?rs ! k) \<le> lon p" "lon p \<le> right (?rs ! k)"
    by blast
  from k(2) r have pg: "p = LatLon (1 / 2) 2" "g' = const_rng (1 / 2)" by simp_all
  have sh: "(\<lambda>n. const_rng (1 / 2) (Suc n)) = const_rng (1 / 2)" by (simp add: const_rng_def)
  have "k < 2 \<and> (LatLon (1 / 2) 2, const_rng (1 / 2)) = Rect_random (?rs ! k) (const_rng (1 / 2))
        \<and> left (?rs ! k) \<le> Fin 2 \<and> Fin 2 \<le> right (?rs ! k)"
    using k(1,3,4,5) unfolding pg sh by (simp add: LatLon_def)
  then have "\<exists>k. k < 2
        \<and> (LatLon (1 / 2) 2, const_rng (1 / 2)) = Rect_random (?rs ! k) (const_rng (1 / 2))
        \<and> left (?rs ! k) \<le> Fin 2 \<and> Fin 2 \<le> right (?rs ! k)" by blast
  with c ok1 ok2 g r show ?thesis by blast
qed

section \<open>Properties of the particle simulator\<close>

lemma USA_OUTER_rects_OK: "\<forall>rect \<in> set USA_OUTER_rects. rectOK rect"
  unfolding USA_OUTER_rects_def by (simp add: Rect_constructor_OK)

lemma USA_OUTER_rects_nonempty: "USA_OUTER_rects \<noteq> []"
  unfolding USA_OUTER_rects_def by simp

lemma MultiRect_constructor_nonempty:
  "rs \<noteq> [] \<Longrightarrow> MultiRect_constructor rs =
     Inr \<lparr>rects = rs, totalArea = foldl (\<lambda>a b. a + b) (area (hd rs)) (map area (tl rs))\<rparr>"
  by (cases rs) (simp_all add: MultiRect_constructor_def)

lemma USA_OUTER_constructed: "MultiRect_constructor USA_OUTER_rects = Inr USA_OUTER"
  using MultiRect_constructor_nonempty [OF USA_OUTER_rects_nonempty]
  by (simp add: USA_OUTER_def)

lemma Rect_random_finite:
  assumes "rectOK rect"
  shows "\<exists>p. Rect_random rect g = (p, \<lambda>n. g (Suc (Suc n))) \<and> finitePos p"
proof -
  from assms obtain b t l r where f: "bottom rect = Fin b" "top' rect = Fin t" "left rect = Fin l"
    "right rect = Fin r"
    by (auto simp: rectOK_def split: number.splits)
  show ?thesis
    by (simp add: Rect_random_def Math_random_def f minus_number_def finitePos_def)
qed

lemma randomStream_USA_OUTER:
  assumes g: "valid_rng g"
  shows "\<exists>s. randomStream USA_OUTER lo hi g = Inr (s, \<lambda>n. g (n + 4)) \<and> finitePos (pos s)
    \<and> ttl s = lo + Math_trunc (Fin (g 3) * Math_abs (hi - lo))"
proof -
  from MultiRect_constructor_Inr [OF USA_OUTER_constructed]
  have m: "rects USA_OUTER \<noteq> []"
    "totalArea USA_OUTER = foldl (\<lambda>a b. a + b) (Fin 0) (map area (rects USA_OUTER))"
    and r: "rects USA_OUTER = USA_OUTER_rects" by simp_all
  have ok: "\<forall>rect \<in> set (rects USA_OUTER). rectOK rect"
    using USA_OUTER_rects_OK r by simp
  from MultiRect_random_first [OF m ok g] obtain k where k: "k < length (rects USA_OUTER)"
    "MultiRect_random USA_OUTER g = Inr (Rect_random (rects USA_OUTER ! k) (\<lambda>n. g (Suc n)))"
    by blast
  have "rectOK (rects USA_OUTER ! k)" using ok k(1) by simp
  from Rect_random_finite [OF this, of "\<lambda>n. g (Suc n)"] obtain p where
    p: "Rect_random (rects USA_OUTER ! k) (\<lambda>n. g (Suc n)) = (p, \<lambda>n. g (Suc (Suc (Suc n))))"
      "finitePos p" by blast
  have "(\<lambda>n. g (Suc (Suc (Suc (Suc n))))) = (\<lambda>n. g (n + 4))" by (simp add: numeral_eq_Suc)
  then show ?thesis
    using k(2) p by (simp add: randomStream_def Math_random_def numeral_eq_Suc)
qed

lemma valid_rng_shift: "valid_rng g \<Longrightarrow> valid_rng (\<lambda>n. g (n + k))"
  by (simp add: valid_rng_def)

lemma less_Fin_finite: "Fin b < x \<Longrightarrow> x < y \<Longrightarrow> isFinite x"
  by (cases x; cases y) simp_all

lemma Rect_contains_finite: "Rect_contains rect p \<Longrightarrow> finitePos p"
proof -
  assume h: "Rect_contains rect p"
  have 1: "isFinite (lat p)" using h
    by (cases "bottom rect"; cases "lat p"; cases "top' rect") (simp_all add: Rect_contains_def)
  have 2: "isFinite (lon p)" using h
    by (cases "left rect"; cases "lon p"; cases "right rect") (simp_all add: Rect_contains_def)
  show ?thesis using 1 2 by (simp add: finitePos_def)
qed

lemma MultiRect_contains_finite: "MultiRect_contains m p \<Longrightarrow> finitePos p"
  by (auto simp: MultiRect_contains_def list_ex_iff dest: Rect_contains_finite)

text \<open>The two branches of the loop body: the stream is kept, or it is respawned.\<close>

lemma update_stream_keep:
  assumes "\<not> ttl stream \<le> Fin 0" and "MultiRect_contains USA_OUTER (pos stream)"
  shows "update_stream u f stream g =
     Inr (\<lparr>pos = fst (f (pos stream) (tickDuration u)), ttl = ttl stream - Fin 1\<rparr>,
          (pos stream, fst (f (pos stream) (tickDuration u))), g)"
  using assms by (cases stream) (simp add: update_stream_def Let_def split: prod.splits)

lemma update_stream_respawn:
  assumes "ttl stream \<le> Fin 0 \<or> \<not> MultiRect_contains USA_OUTER (pos stream)"
    and "randomStream USA_OUTER (minTicks u) (maxTicks u) g = Inr (s', g')"
  shows "update_stream u f stream g =
     Inr (\<lparr>pos = fst (f (pos s') (tickDuration u)), ttl = ttl s' - Fin 1\<rparr>,
          (pos s', fst (f (pos s') (tickDuration u))), g')"
  using assms by (cases s') (auto simp: update_stream_def Let_def split: prod.splits)

lemma update_stream_total:
  assumes g: "valid_rng g"
  shows "\<exists>s' d g'. update_stream u f stream g = Inr (s', d, g') \<and> valid_rng g'
     \<and> finitePos (fst d) \<and> snd d = pos s' \<and> snd d = fst (f (fst d) (tickDuration u))"
proof (cases "ttl stream \<le> Fin 0 \<or> \<not> MultiRect_contains USA_OUTER (pos stream)")
  case True
  from randomStream_USA_OUTER [OF g, of "minTicks u" "maxTicks u"] obtain s where
    s: "randomStream USA_OUTER (minTicks u) (maxTicks u) g = Inr (s, \<lambda>n. g (n + 4))"
       "finitePos (pos s)" by blast
  show ?thesis
    using update_stream_respawn [OF True s(1), of f] s(2) valid_rng_shift [OF g, of 4] by simp
next
  case False
  then have k: "\<not> ttl stream \<le> Fin 0" "MultiRect_contains USA_OUTER (pos stream)" by simp_all
  show ?thesis
    using update_stream_keep [OF k, of u f g] g MultiRect_contains_finite [OF k(2)] by simp
qed

lemma update_loop_total:
  "valid_rng g \<Longrightarrow> \<exists>ss ds g'. update_loop u f pool g = Inr (ss, ds, g') \<and> valid_rng g'"
proof (induction pool arbitrary: g)
  case Nil
  then show ?case by simp
next
  case (Cons s rest)
  from update_stream_total [OF Cons.prems, of u f s] obtain s' d g1 where
    1: "update_stream u f s g = Inr (s', d, g1)" "valid_rng g1" by blast
  from Cons.IH [OF 1(2)] obtain ss ds g2 where
    2: "update_loop u f rest g1 = Inr (ss, ds, g2)" "valid_rng g2" by blast
  show ?case using 1 2 by simp
qed

lemma update_loop_nth:
  "valid_rng g \<Longrightarrow> update_loop u f pool g = Inr (ss, ds, g') \<Longrightarrow>
   length ss = length pool \<and> length ds = length pool
   \<and> (\<forall>i < length pool. \<exists>gi gi'. valid_rng gi
        \<and> update_stream u f (pool ! i) gi = Inr (ss ! i, ds ! i, gi'))"
proof (induction pool arbitrary: g ss ds g')
  case Nil
  then show ?case by simp
next
  case (Cons s rest)
  from update_stream_total [OF Cons.prems(1), of u f s] obtain s' d g1 where
    1: "update_stream u f s g = Inr (s', d, g1)" "valid_rng g1" by blast
  from update_loop_total [OF 1(2), of u f rest] obtain ss1 ds1 g2 where
    2: "update_loop u f rest g1 = Inr (ss1, ds1, g2)" by blast
  from Cons.prems(2) 1 2 have eq: "ss = s' # ss1" "ds = d # ds1" by simp_all
  from Cons.IH [OF 1(2) 2] have ih: "length ss1 = length rest" "length ds1 = length rest"
    "\<forall>i < length rest. \<exists>gi gi'. valid_rng gi
        \<and> update_stream u f (rest ! i) gi = Inr (ss1 ! i, ds1 ! i, gi')" by simp_all
  have "\<forall>i < length (s # rest). \<exists>gi gi'. valid_rng gi
        \<and> update_stream u f ((s # rest) ! i) gi = Inr (ss ! i, ds ! i, gi')"
  proof (intro allI impI)
    fix i assume i: "i < length (s # rest)"
    show "\<exists>gi gi'. valid_rng gi \<and> update_stream u f ((s # rest) ! i) gi = Inr (ss ! i, ds ! i, gi')"
    proof (cases i)
      case 0
      then show ?thesis using 1 Cons.prems(1) eq by auto
    next
      case (Suc j)
      then show ?thesis using ih(3) i eq by simp
    qed
  qed
  then show ?case using eq ih by simp
qed


lemma fill_streams_total:
  "valid_rng g \<Longrightarrow> \<exists>ss g'. fill_streams n lo hi g = Inr (ss, g') \<and> length ss = n \<and> valid_rng g'"
proof (induction n arbitrary: g)
  case 0
  then show ?case by simp
next
  case (Suc n)
  from randomStream_USA_OUTER [OF Suc.prems, of lo hi] obtain s where
    s: "randomStream USA_OUTER lo hi g = Inr (s, \<lambda>n. g (n + 4))" by blast
  from Suc.IH [OF valid_rng_shift [OF Suc.prems, of 4]] obtain ss g' where
    "fill_streams n lo hi (\<lambda>n. g (n + 4)) = Inr (ss, g')" "length ss = n" "valid_rng g'" by blast
  with s show ?case by simp
qed

lemma update_total:
  assumes g: "valid_rng g"
  shows "\<exists>ds ss g'. update u f g = Inr (ds, u\<lparr>streams := ss\<rparr>, g') \<and> valid_rng g'
    \<and> length ss = length (streams u) \<and> length ds = length (streams u)
    \<and> (\<forall>i < length (streams u). \<exists>gi gi'. valid_rng gi
        \<and> update_stream u f (streams u ! i) gi = Inr (ss ! i, ds ! i, gi'))"
proof -
  from update_loop_total [OF g, of u f "streams u"] obtain ss ds g' where
    l: "update_loop u f (streams u) g = Inr (ss, ds, g')" "valid_rng g'" by blast
  from update_loop_nth [OF g l(1)] l show ?thesis
    by (intro exI [of _ ds] exI [of _ ss] exI [of _ g']) (simp add: update_def)
qed

text \<open>
  C6. For every pool, every interpolator (the one built from no reports included) and
  every tick with draws in \<open>[0, 1)\<close>, the update function returns normally, the list of
  segments has exactly as many entries as the pool, the pool keeps its size, and entry
  \<open>i\<close> is the segment that the loop body produces from the stream at index \<open>i\<close>, ending
  at the new position of that stream. A pool made by \<open>makeUpdate\<close> for a valid
  \<open>points\<close> count has that many streams, and so has the list its ticks return.
\<close>

theorem update_length_order:
  assumes g: "valid_rng g"
  shows "(\<exists>deltas u' g'. update u f g = Inr (deltas, u', g')
      \<and> length deltas = length (streams u) \<and> length (streams u') = length (streams u)
      \<and> (\<forall>i < length (streams u). snd (deltas ! i) = pos (streams u' ! i)
            \<and> (\<exists>gi gi'. update_stream u f (streams u ! i) gi
                  = Inr (streams u' ! i, deltas ! i, gi'))))
    \<and> (0 \<le> count \<and> count \<le> 4294967295 \<longrightarrow>
        (\<exists>u0 g0 deltas u1 g1. makeUpdate count maxWindow tickDur tickNegZero g = Inr (u0, g0)
          \<and> length (streams u0) = nat count
          \<and> update u0 f g0 = Inr (deltas, u1, g1) \<and> length deltas = nat count))"
proof -
  from update_total [OF g, of u f] obtain ds ss g' where
    t: "update u f g = Inr (ds, u\<lparr>streams := ss\<rparr>, g')"
       "length ss = length (streams u)" "length ds = length (streams u)"
       "\<forall>i < length (streams u). \<exists>gi gi'. valid_rng gi
          \<and> update_stream u f (streams u ! i) gi = Inr (ss ! i, ds ! i, gi')" by blast
  have "\<forall>i < length (streams u). snd (ds ! i) = pos (ss ! i)
          \<and> (\<exists>gi gi'. update_stream u f (streams u ! i) gi = Inr (ss ! i, ds ! i, gi'))"
  proof (intro allI impI)
    fix i assume "i < length (streams u)"
    with t(4) obtain gi gi' where gi: "valid_rng gi"
      "update_stream u f (streams u ! i) gi = Inr (ss ! i, ds ! i, gi')" by blast
    from update_stream_total [OF gi(1), of u f "streams u ! i"] gi(2)
    have "snd (ds ! i) = pos (ss ! i)" by auto
    with gi(2) show "snd (ds ! i) = pos (ss ! i)
          \<and> (\<exists>gi gi'. update_stream u f (streams u ! i) gi = Inr (ss ! i, ds ! i, gi'))" by blast
  qed
  with t have tick: "\<exists>deltas u' g'. update u f g = Inr (deltas, u', g')
      \<and> length deltas = length (streams u) \<and> length (streams u') = length (streams u)
      \<and> (\<forall>i < length (streams u). snd (deltas ! i) = pos (streams u' ! i)
            \<and> (\<exists>gi gi'. update_stream u f (streams u ! i) gi
                  = Inr (streams u' ! i, deltas ! i, gi')))"
    by (intro exI [of _ ds] exI [of _ "u\<lparr>streams := ss\<rparr>"] exI [of _ g']) simp
  have make: "\<exists>u0 g0 deltas u1 g1. makeUpdate count maxWindow tickDur tickNegZero g = Inr (u0, g0)
          \<and> length (streams u0) = nat count
          \<and> update u0 f g0 = Inr (deltas, u1, g1) \<and> length deltas = nat count"
    if c: "0 \<le> count \<and> count \<le> 4294967295"
  proof -
    define hi where "hi = Math_min (Fin 10) (Math_trunc (divide64 maxWindow tickDur tickNegZero))"
    define lo where "lo = Math_min (Fin 5) (Math_trunc (times64 (round64 (Fin 0.7)) hi))"
    from fill_streams_total [OF g, of "nat count" lo hi] obtain ss0 g0 where
      f: "fill_streams (nat count) lo hi g = Inr (ss0, g0)" "length ss0 = nat count" "valid_rng g0"
      by blast
    define u0 where "u0 = \<lparr>tickDuration = tickDur, minTicks = lo, maxTicks = hi, streams = ss0\<rparr>"
    have m: "makeUpdate count maxWindow tickDur tickNegZero g = Inr (u0, g0)"
      using c f(1) by (simp add: makeUpdate_def Let_def hi_def lo_def u0_def)
    from update_total [OF f(3), of u0 f] obtain ds1 ss1 g1 where
      "update u0 f g0 = Inr (ds1, u0\<lparr>streams := ss1\<rparr>, g1)" "length ds1 = length (streams u0)"
      by blast
    with m f(2) show ?thesis by (auto simp: u0_def)
  qed
  from tick make show ?thesis by blast
qed


theorem update_length_order_witness:
  "valid_rng (const_rng (1 / 2))
   \<and> (\<exists>deltas u' g'.
         update \<lparr>tickDuration = Fin (1 / 2), minTicks = Fin 5, maxTicks = Fin 10,
                 streams = [\<lparr>pos = LatLon 40 (- 100), ttl = Fin 3\<rparr>, \<lparr>pos = LatLon 0 0, ttl = Fin 0\<rparr>]\<rparr>
           (interpolate defaultOptions [] [] []) (const_rng (1 / 2)) = Inr (deltas, u', g')
         \<and> length deltas = 2 \<and> length (streams u') = 2
         \<and> snd (deltas ! 1) = pos (streams u' ! 1))
   \<and> (\<exists>u0 g0 deltas u1 g1.
         makeUpdate 2 (Fin 168) (Fin (1 / 2)) False (const_rng (1 / 2)) = Inr (u0, g0)
         \<and> length (streams u0) = 2
         \<and> update u0 (interpolate defaultOptions [] [] []) g0 = Inr (deltas, u1, g1)
         \<and> length deltas = 2)"
proof -
  have g: "valid_rng (const_rng (1 / 2))" by simp
  let ?u = "\<lparr>tickDuration = Fin (1 / 2), minTicks = Fin 5, maxTicks = Fin 10,
             streams = [\<lparr>pos = LatLon 40 (- 100), ttl = Fin 3\<rparr>, \<lparr>pos = LatLon 0 0, ttl = Fin 0\<rparr>]\<rparr>"
  let ?f = "interpolate defaultOptions [] [] []"
  note T = update_length_order [OF g, of ?u ?f 2 "Fin 168" "Fin (1 / 2)" False]
  have len: "length (streams ?u) = 2" by simp
  from T obtain deltas u' g' where a: "update ?u ?f (const_rng (1 / 2)) = Inr (deltas, u', g')"
    "length deltas = length (streams ?u)" "length (streams u') = length (streams ?u)"
    "\<forall>i < length (streams ?u). snd (deltas ! i) = pos (streams u' ! i)
            \<and> (\<exists>gi gi'. update_stream ?u ?f (streams ?u ! i) gi
                  = Inr (streams u' ! i, deltas ! i, gi'))"
    by (elim conjE exE) 
  have "(1::nat) < length (streams ?u)" by simp
  with a(4) have "snd (deltas ! 1) = pos (streams u' ! 1)" by blast
  with a(1,2,3) len have 1: "\<exists>deltas u' g'.
         update ?u ?f (const_rng (1 / 2)) = Inr (deltas, u', g')
         \<and> length deltas = 2 \<and> length (streams u') = 2
         \<and> snd (deltas ! 1) = pos (streams u' ! 1)"
    by (intro exI [of _ deltas] exI [of _ u'] exI [of _ g']) simp
  have c: "(0::int) \<le> 2 \<and> (2::int) \<le> 4294967295" by simp
  from conjunct2 [OF T, THEN mp, OF c] have "\<exists>u0 g0 deltas u1 g1.
         makeUpdate 2 (Fin 168) (Fin (1 / 2)) False (const_rng (1 / 2)) = Inr (u0, g0)
         \<and> length (streams u0) = nat 2
         \<and> update u0 ?f g0 = Inr (deltas, u1, g1)
         \<and> length deltas = nat 2" .
  then have 2: "\<exists>u0 g0 deltas u1 g1.
         makeUpdate 2 (Fin 168) (Fin (1 / 2)) False (const_rng (1 / 2)) = Inr (u0, g0)
         \<and> length (streams u0) = 2
         \<and> update u0 ?f g0 = Inr (deltas, u1, g1)
         \<and> length deltas = 2" by simp
  from g 1 2 show ?thesis by blast
qed


lemma Fin_minus [simp]: "Fin a - Fin b = Fin (a - b)"
  by (simp add: minus_number_def)

lemma USA_OUTER_contains_sample: "MultiRect_contains USA_OUTER (LatLon 40 (- 100))"
  unfolding USA_OUTER_def USA_OUTER_rects_def
  by (simp add: MultiRect_contains_def Rect_contains_def Rect_constructor_def LatLon_def Let_def)

lemma update_loop_prefix:
  "valid_rng g \<Longrightarrow> update_loop u f pool g = Inr (ss, ds, g') \<Longrightarrow> i < length pool \<Longrightarrow>
   \<exists>gi gi'. valid_rng gi
     \<and> update_loop u f (take i pool) g = Inr (take i ss, take i ds, gi)
     \<and> update_stream u f (pool ! i) gi = Inr (ss ! i, ds ! i, gi')
     \<and> update_loop u f (take (Suc i) pool) g = Inr (take (Suc i) ss, take (Suc i) ds, gi')"
proof (induction pool arbitrary: g ss ds g' i)
  case Nil
  then show ?case by simp
next
  case (Cons s rest)
  from update_stream_total [OF Cons.prems(1), of u f s] obtain s' d g1 where
    1: "update_stream u f s g = Inr (s', d, g1)" "valid_rng g1" by blast
  from update_loop_total [OF 1(2), of u f rest] obtain ss1 ds1 g2 where
    2: "update_loop u f rest g1 = Inr (ss1, ds1, g2)" by blast
  from Cons.prems(2) 1 2 have eq: "ss = s' # ss1" "ds = d # ds1" by simp_all
  show ?case
  proof (cases i)
    case 0
    have "valid_rng g
     \<and> update_loop u f (take 0 (s # rest)) g = Inr (take 0 ss, take 0 ds, g)
     \<and> update_stream u f ((s # rest) ! 0) g = Inr (ss ! 0, ds ! 0, g1)
     \<and> update_loop u f (take (Suc 0) (s # rest)) g = Inr (take (Suc 0) ss, take (Suc 0) ds, g1)"
      using Cons.prems(1) 1 eq by simp
    then show ?thesis unfolding 0 by blast
  next
    case (Suc j)
    then have j: "j < length rest" using Cons.prems(3) by simp
    from Cons.IH [OF 1(2) 2 j] obtain gi gi' where ih: "valid_rng gi"
      "update_loop u f (take j rest) g1 = Inr (take j ss1, take j ds1, gi)"
      "update_stream u f (rest ! j) gi = Inr (ss1 ! j, ds1 ! j, gi')"
      "update_loop u f (take (Suc j) rest) g1 = Inr (take (Suc j) ss1, take (Suc j) ds1, gi')"
      by blast
    have "valid_rng gi
     \<and> update_loop u f (take (Suc j) (s # rest)) g = Inr (take (Suc j) ss, take (Suc j) ds, gi)
     \<and> update_stream u f ((s # rest) ! Suc j) gi = Inr (ss ! Suc j, ds ! Suc j, gi')
     \<and> update_loop u f (take (Suc (Suc j)) (s # rest)) g
          = Inr (take (Suc (Suc j)) ss, take (Suc (Suc j)) ds, gi')"
      using ih 1 eq by simp
    then show ?thesis unfolding Suc by blast
  qed
qed

lemma update_prefix:
  assumes g: "valid_rng g" and i: "i < length (streams u)"
  shows "\<exists>ds ss g' gi gi'. update u f g = Inr (ds, u\<lparr>streams := ss\<rparr>, g') \<and> valid_rng g'
    \<and> length ss = length (streams u) \<and> length ds = length (streams u)
    \<and> valid_rng gi
    \<and> update_loop u f (take i (streams u)) g = Inr (take i ss, take i ds, gi)
    \<and> update_stream u f (streams u ! i) gi = Inr (ss ! i, ds ! i, gi')
    \<and> update_loop u f (take (Suc i) (streams u)) g = Inr (take (Suc i) ss, take (Suc i) ds, gi')"
proof -
  from update_loop_total [OF g, of u f "streams u"] obtain ss ds g' where
    l: "update_loop u f (streams u) g = Inr (ss, ds, g')" "valid_rng g'" by blast
  from update_loop_nth [OF g l(1)] have len: "length ss = length (streams u)"
    "length ds = length (streams u)" by simp_all
  from update_loop_prefix [OF g l(1) i] obtain gi gi' where p: "valid_rng gi"
    "update_loop u f (take i (streams u)) g = Inr (take i ss, take i ds, gi)"
    "update_stream u f (streams u ! i) gi = Inr (ss ! i, ds ! i, gi')"
    "update_loop u f (take (Suc i) (streams u)) g = Inr (take (Suc i) ss, take (Suc i) ds, gi')"
    by blast
  have "update u f g = Inr (ds, u\<lparr>streams := ss\<rparr>, g')" using l(1) by (simp add: update_def)
  with l(2) len p show ?thesis by blast
qed

lemma randomStream_point:
  assumes "randomStream m lo hi g = Inr (s, g')"
  shows "\<exists>g1. MultiRect_random m g = Inr (pos s, g1) \<and> g' = (\<lambda>n. g1 (Suc n))"
  using assms
  by (auto simp: randomStream_def Math_random_def Let_def split: sum.splits prod.splits)

text \<open>
  C5. The respawn check comes first in the processing of a stream, before the
  advection. A stream that starts a tick inside the region with \<open>ttl = 1\<close> is advected
  from its own position and ends the tick with \<open>ttl = 0\<close>; the random source is the same
  before and after it, so it is not respawned in the tick that decrements it to 0. A
  stream at index \<open>i\<close> that ends a tick with \<open>ttl = 0\<close> is replaced in the next tick: the
  replacement is \<open>randomStream\<close> on the random source \<open>gi\<close> that the loop of that tick has
  reached after the streams before \<open>i\<close> (its position is \<open>MultiRect.random\<close> on the first
  three draws of \<open>gi\<close>, its lifetime uses the fourth), the segment starts at the spawned
  position, the replacement is advected by the interpolator and has its \<open>ttl\<close>
  decremented within that same tick, and the loop goes on after these four draws.
\<close>

theorem respawn_on_next_tick:
  assumes g: "valid_rng g" and i: "i < length (streams u)"
  shows "\<exists>deltas u1 g1. update u f g = Inr (deltas, u1, g1)
    \<and> (ttl (streams u ! i) = Fin 1 \<and> MultiRect_contains USA_OUTER (pos (streams u ! i)) \<longrightarrow>
          deltas ! i = (pos (streams u ! i), fst (f (pos (streams u ! i)) (tickDuration u)))
        \<and> streams u1 ! i = \<lparr>pos = fst (f (pos (streams u ! i)) (tickDuration u)), ttl = Fin 0\<rparr>
        \<and> (\<exists>gi. update_loop u f (take i (streams u)) g
                   = Inr (take i (streams u1), take i deltas, gi)
              \<and> update_stream u f (streams u ! i) gi = Inr (streams u1 ! i, deltas ! i, gi)
              \<and> update_loop u f (take (Suc i) (streams u)) g
                   = Inr (take (Suc i) (streams u1), take (Suc i) deltas, gi)))
    \<and> (ttl (streams u1 ! i) = Fin 0 \<longrightarrow>
          (\<exists>deltas2 u2 g2 gi s'.
              update u1 f2 g1 = Inr (deltas2, u2, g2)
            \<and> update_loop u1 f2 (take i (streams u1)) g1
                 = Inr (take i (streams u2), take i deltas2, gi)
            \<and> randomStream USA_OUTER (minTicks u) (maxTicks u) gi = Inr (s', \<lambda>n. gi (n + 4))
            \<and> MultiRect_random USA_OUTER gi = Inr (pos s', \<lambda>n. gi (n + 3))
            \<and> deltas2 ! i = (pos s', fst (f2 (pos s') (tickDuration u)))
            \<and> streams u2 ! i = \<lparr>pos = fst (f2 (pos s') (tickDuration u)), ttl = ttl s' - Fin 1\<rparr>
            \<and> update_stream u1 f2 (streams u1 ! i) gi
                 = Inr (streams u2 ! i, deltas2 ! i, \<lambda>n. gi (n + 4))
            \<and> update_loop u1 f2 (take (Suc i) (streams u1)) g1
                 = Inr (take (Suc i) (streams u2), take (Suc i) deltas2, \<lambda>n. gi (n + 4))))"
proof -
  let ?s = "streams u ! i"
  from update_prefix [OF g i, of f] obtain ds ss g1 ga ga' where
    t1: "update u f g = Inr (ds, u\<lparr>streams := ss\<rparr>, g1)" "valid_rng g1"
       "length ss = length (streams u)"
       "update_loop u f (take i (streams u)) g = Inr (take i ss, take i ds, ga)"
       "update_stream u f ?s ga = Inr (ss ! i, ds ! i, ga')"
       "update_loop u f (take (Suc i) (streams u)) g = Inr (take (Suc i) ss, take (Suc i) ds, ga')"
    by blast
  let ?u1 = "u\<lparr>streams := ss\<rparr>"
  have sel: "streams ?u1 = ss" by simp
  have first: "ds ! i = (pos ?s, fst (f (pos ?s) (tickDuration u)))
        \<and> ss ! i = \<lparr>pos = fst (f (pos ?s) (tickDuration u)), ttl = Fin 0\<rparr>
        \<and> (\<exists>gi. update_loop u f (take i (streams u)) g = Inr (take i ss, take i ds, gi)
              \<and> update_stream u f ?s gi = Inr (ss ! i, ds ! i, gi)
              \<and> update_loop u f (take (Suc i) (streams u)) g
                   = Inr (take (Suc i) ss, take (Suc i) ds, gi))"
    if t: "ttl ?s = Fin 1" and c: "MultiRect_contains USA_OUTER (pos ?s)"
  proof -
    have keep: "\<not> ttl ?s \<le> Fin 0" using t by simp
    from update_stream_keep [OF keep c, of u f ga] t1(5) t
    have r: "ss ! i = \<lparr>pos = fst (f (pos ?s) (tickDuration u)), ttl = Fin 0\<rparr>"
      "ds ! i = (pos ?s, fst (f (pos ?s) (tickDuration u)))" "ga' = ga" by simp_all
    from t1(4,5,6) r(3) have "update_loop u f (take i (streams u)) g = Inr (take i ss, take i ds, ga)
              \<and> update_stream u f ?s ga = Inr (ss ! i, ds ! i, ga)
              \<and> update_loop u f (take (Suc i) (streams u)) g
                   = Inr (take (Suc i) ss, take (Suc i) ds, ga)" by simp
    with r(1,2) show ?thesis by blast
  qed
  have second: "\<exists>deltas2 u2 g2 gi s'.
              update ?u1 f2 g1 = Inr (deltas2, u2, g2)
            \<and> update_loop ?u1 f2 (take i ss) g1
                 = Inr (take i (streams u2), take i deltas2, gi)
            \<and> randomStream USA_OUTER (minTicks u) (maxTicks u) gi = Inr (s', \<lambda>n. gi (n + 4))
            \<and> MultiRect_random USA_OUTER gi = Inr (pos s', \<lambda>n. gi (n + 3))
            \<and> deltas2 ! i = (pos s', fst (f2 (pos s') (tickDuration u)))
            \<and> streams u2 ! i = \<lparr>pos = fst (f2 (pos s') (tickDuration u)), ttl = ttl s' - Fin 1\<rparr>
            \<and> update_stream ?u1 f2 (ss ! i) gi
                 = Inr (streams u2 ! i, deltas2 ! i, \<lambda>n. gi (n + 4))
            \<and> update_loop ?u1 f2 (take (Suc i) ss) g1
                 = Inr (take (Suc i) (streams u2), take (Suc i) deltas2, \<lambda>n. gi (n + 4))"
    if z: "ttl (ss ! i) = Fin 0"
  proof -
    have i1: "i < length (streams ?u1)" using i t1(3) by simp
    from update_prefix [OF t1(2) i1, of f2] obtain ds2 ss2 g2 gi gi' where
      t2: "update ?u1 f2 g1 = Inr (ds2, ?u1\<lparr>streams := ss2\<rparr>, g2)"
         "valid_rng gi"
         "update_loop ?u1 f2 (take i (streams ?u1)) g1 = Inr (take i ss2, take i ds2, gi)"
         "update_stream ?u1 f2 (streams ?u1 ! i) gi = Inr (ss2 ! i, ds2 ! i, gi')"
         "update_loop ?u1 f2 (take (Suc i) (streams ?u1)) g1
            = Inr (take (Suc i) ss2, take (Suc i) ds2, gi')"
      by blast
    from randomStream_USA_OUTER [OF t2(2), of "minTicks u" "maxTicks u"] obtain s' where
      s': "randomStream USA_OUTER (minTicks u) (maxTicks u) gi = Inr (s', \<lambda>n. gi (n + 4))" by blast
    from randomStream_point [OF s'] obtain h where
      h: "MultiRect_random USA_OUTER gi = Inr (pos s', h)" "(\<lambda>n. gi (n + 4)) = (\<lambda>n. h (Suc n))"
      by blast
    from MultiRect_constructor_Inr [OF USA_OUTER_constructed]
    have m: "rects USA_OUTER \<noteq> []"
      "totalArea USA_OUTER = foldl (\<lambda>a b. a + b) (Fin 0) (map area (rects USA_OUTER))"
      and r: "rects USA_OUTER = USA_OUTER_rects" by simp_all
    have ok: "\<forall>rect \<in> set (rects USA_OUTER). rectOK rect"
      using USA_OUTER_rects_OK r by simp
    from MultiRect_random_first [OF m ok t2(2)] obtain k where k: "k < length (rects USA_OUTER)"
      "MultiRect_random USA_OUTER gi = Inr (Rect_random (rects USA_OUTER ! k) (\<lambda>n. gi (Suc n)))"
      by blast
    have "rectOK (rects USA_OUTER ! k)" using ok k(1) by simp
    from Rect_random_finite [OF this, of "\<lambda>n. gi (Suc n)"] obtain p where
      p: "Rect_random (rects USA_OUTER ! k) (\<lambda>n. gi (Suc n)) = (p, \<lambda>n. gi (Suc (Suc (Suc n))))"
      by blast
    have h3: "h = (\<lambda>n. gi (n + 3))" using h(1) k(2) p by (simp add: numeral_eq_Suc)
    have re: "ttl (ss ! i) \<le> Fin 0 \<or> \<not> MultiRect_contains USA_OUTER (pos (ss ! i))"
      using z by simp
    from update_stream_respawn [OF re, of ?u1 gi s' "\<lambda>n. gi (n + 4)" f2] s' t2(4)
    have res: "ds2 ! i = (pos s', fst (f2 (pos s') (tickDuration u)))"
      "ss2 ! i = \<lparr>pos = fst (f2 (pos s') (tickDuration u)), ttl = ttl s' - Fin 1\<rparr>"
      "gi' = (\<lambda>n. gi (n + 4))" by simp_all
    have "update ?u1 f2 g1 = Inr (ds2, ?u1\<lparr>streams := ss2\<rparr>, g2)
            \<and> update_loop ?u1 f2 (take i ss) g1
                 = Inr (take i (streams (?u1\<lparr>streams := ss2\<rparr>)), take i ds2, gi)
            \<and> randomStream USA_OUTER (minTicks u) (maxTicks u) gi = Inr (s', \<lambda>n. gi (n + 4))
            \<and> MultiRect_random USA_OUTER gi = Inr (pos s', \<lambda>n. gi (n + 3))
            \<and> ds2 ! i = (pos s', fst (f2 (pos s') (tickDuration u)))
            \<and> streams (?u1\<lparr>streams := ss2\<rparr>) ! i
                = \<lparr>pos = fst (f2 (pos s') (tickDuration u)), ttl = ttl s' - Fin 1\<rparr>
            \<and> update_stream ?u1 f2 (ss ! i) gi
                 = Inr (streams (?u1\<lparr>streams := ss2\<rparr>) ! i, ds2 ! i, \<lambda>n. gi (n + 4))
            \<and> update_loop ?u1 f2 (take (Suc i) ss) g1
                 = Inr (take (Suc i) (streams (?u1\<lparr>streams := ss2\<rparr>)), take (Suc i) ds2,
                        \<lambda>n. gi (n + 4))"
      using t2(1,3,4,5) s' h(1) h3 res by simp
    then show ?thesis by blast
  qed
  have "update u f g = Inr (ds, ?u1, g1)
    \<and> (ttl ?s = Fin 1 \<and> MultiRect_contains USA_OUTER (pos ?s) \<longrightarrow>
          ds ! i = (pos ?s, fst (f (pos ?s) (tickDuration u)))
        \<and> streams ?u1 ! i = \<lparr>pos = fst (f (pos ?s) (tickDuration u)), ttl = Fin 0\<rparr>
        \<and> (\<exists>gi. update_loop u f (take i (streams u)) g
                   = Inr (take i (streams ?u1), take i ds, gi)
              \<and> update_stream u f ?s gi = Inr (streams ?u1 ! i, ds ! i, gi)
              \<and> update_loop u f (take (Suc i) (streams u)) g
                   = Inr (take (Suc i) (streams ?u1), take (Suc i) ds, gi)))
    \<and> (ttl (streams ?u1 ! i) = Fin 0 \<longrightarrow>
          (\<exists>deltas2 u2 g2 gi s'.
              update ?u1 f2 g1 = Inr (deltas2, u2, g2)
            \<and> update_loop ?u1 f2 (take i (streams ?u1)) g1
                 = Inr (take i (streams u2), take i deltas2, gi)
            \<and> randomStream USA_OUTER (minTicks u) (maxTicks u) gi = Inr (s', \<lambda>n. gi (n + 4))
            \<and> MultiRect_random USA_OUTER gi = Inr (pos s', \<lambda>n. gi (n + 3))
            \<and> deltas2 ! i = (pos s', fst (f2 (pos s') (tickDuration u)))
            \<and> streams u2 ! i = \<lparr>pos = fst (f2 (pos s') (tickDuration u)), ttl = ttl s' - Fin 1\<rparr>
            \<and> update_stream ?u1 f2 (streams ?u1 ! i) gi
                 = Inr (streams u2 ! i, deltas2 ! i, \<lambda>n. gi (n + 4))
            \<and> update_loop ?u1 f2 (take (Suc i) (streams ?u1)) g1
                 = Inr (take (Suc i) (streams u2), take (Suc i) deltas2, \<lambda>n. gi (n + 4))))"
    using t1(1) first second unfolding sel by blast
  then show ?thesis by blast
qed



theorem respawn_on_next_tick_witness:
  "valid_rng (const_rng (1 / 2))
   \<and> 1 < length (streams \<lparr>tickDuration = Fin (1 / 2), minTicks = Fin 5, maxTicks = Fin 10,
        streams = [\<lparr>pos = LatLon 0 0, ttl = Fin 3\<rparr>, \<lparr>pos = LatLon 40 (- 100), ttl = Fin 1\<rparr>]\<rparr>)
   \<and> ttl (streams \<lparr>tickDuration = Fin (1 / 2), minTicks = Fin 5, maxTicks = Fin 10,
        streams = [\<lparr>pos = LatLon 0 0, ttl = Fin 3\<rparr>, \<lparr>pos = LatLon 40 (- 100), ttl = Fin 1\<rparr>]\<rparr> ! 1)
       = Fin 1
   \<and> MultiRect_contains USA_OUTER (pos (streams \<lparr>tickDuration = Fin (1 / 2), minTicks = Fin 5,
        maxTicks = Fin 10,
        streams = [\<lparr>pos = LatLon 0 0, ttl = Fin 3\<rparr>, \<lparr>pos = LatLon 40 (- 100), ttl = Fin 1\<rparr>]\<rparr> ! 1))
   \<and> (\<exists>deltas u1 g1 deltas2 u2 g2 gi s'.
        update \<lparr>tickDuration = Fin (1 / 2), minTicks = Fin 5, maxTicks = Fin 10,
          streams = [\<lparr>pos = LatLon 0 0, ttl = Fin 3\<rparr>, \<lparr>pos = LatLon 40 (- 100), ttl = Fin 1\<rparr>]\<rparr>
          (interpolate defaultOptions [] [] []) (const_rng (1 / 2)) = Inr (deltas, u1, g1)
      \<and> fst (deltas ! 1) = LatLon 40 (- 100)
      \<and> ttl (streams u1 ! 1) = Fin 0
      \<and> update u1 (interpolate defaultOptions [] [] []) g1 = Inr (deltas2, u2, g2)
      \<and> update_loop u1 (interpolate defaultOptions [] [] []) (take 1 (streams u1)) g1
           = Inr (take 1 (streams u2), take 1 deltas2, gi)
      \<and> randomStream USA_OUTER (Fin 5) (Fin 10) gi = Inr (s', \<lambda>n. gi (n + 4))
      \<and> fst (deltas2 ! 1) = pos s'
      \<and> ttl (streams u2 ! 1) = ttl s' - Fin 1)"
proof -
  let ?u = "\<lparr>tickDuration = Fin (1 / 2), minTicks = Fin 5, maxTicks = Fin 10,
          streams = [\<lparr>pos = LatLon 0 0, ttl = Fin 3\<rparr>, \<lparr>pos = LatLon 40 (- 100), ttl = Fin 1\<rparr>]\<rparr>"
  let ?f = "interpolate defaultOptions [] [] []"
  have g: "valid_rng (const_rng (1 / 2))" by simp
  have i: "1 < length (streams ?u)" by simp
  have t: "ttl (streams ?u ! 1) = Fin 1" by simp
  have c: "MultiRect_contains USA_OUTER (pos (streams ?u ! 1))"
    using USA_OUTER_contains_sample by simp
  from respawn_on_next_tick [OF g i, of ?f ?f]
  obtain deltas u1 g1 where r:
    "update ?u ?f (const_rng (1 / 2)) = Inr (deltas, u1, g1)"
    "ttl (streams ?u ! 1) = Fin 1 \<and> MultiRect_contains USA_OUTER (pos (streams ?u ! 1)) \<longrightarrow>
          deltas ! 1 = (pos (streams ?u ! 1), fst (?f (pos (streams ?u ! 1)) (tickDuration ?u)))
        \<and> streams u1 ! 1 = \<lparr>pos = fst (?f (pos (streams ?u ! 1)) (tickDuration ?u)), ttl = Fin 0\<rparr>
        \<and> (\<exists>gi. update_loop ?u ?f (take 1 (streams ?u)) (const_rng (1 / 2))
                   = Inr (take 1 (streams u1), take 1 deltas, gi)
              \<and> update_stream ?u ?f (streams ?u ! 1) gi = Inr (streams u1 ! 1, deltas ! 1, gi)
              \<and> update_loop ?u ?f (take (Suc 1) (streams ?u)) (const_rng (1 / 2))
                   = Inr (take (Suc 1) (streams u1), take (Suc 1) deltas, gi))"
    "ttl (streams u1 ! 1) = Fin 0 \<longrightarrow>
          (\<exists>deltas2 u2 g2 gi s'.
              update u1 ?f g1 = Inr (deltas2, u2, g2)
            \<and> update_loop u1 ?f (take 1 (streams u1)) g1
                 = Inr (take 1 (streams u2), take 1 deltas2, gi)
            \<and> randomStream USA_OUTER (minTicks ?u) (maxTicks ?u) gi = Inr (s', \<lambda>n. gi (n + 4))
            \<and> MultiRect_random USA_OUTER gi = Inr (pos s', \<lambda>n. gi (n + 3))
            \<and> deltas2 ! 1 = (pos s', fst (?f (pos s') (tickDuration ?u)))
            \<and> streams u2 ! 1 = \<lparr>pos = fst (?f (pos s') (tickDuration ?u)), ttl = ttl s' - Fin 1\<rparr>
            \<and> update_stream u1 ?f (streams u1 ! 1) gi
                 = Inr (streams u2 ! 1, deltas2 ! 1, \<lambda>n. gi (n + 4))
            \<and> update_loop u1 ?f (take (Suc 1) (streams u1)) g1
                 = Inr (take (Suc 1) (streams u2), take (Suc 1) deltas2, \<lambda>n. gi (n + 4)))"
    by (elim conjE exE)
  from r(2) t c have a: "deltas ! 1 = (pos (streams ?u ! 1), fst (?f (pos (streams ?u ! 1)) (tickDuration ?u)))"
    "streams u1 ! 1 = \<lparr>pos = fst (?f (pos (streams ?u ! 1)) (tickDuration ?u)), ttl = Fin 0\<rparr>"
    by blast+
  then have z: "ttl (streams u1 ! 1) = Fin 0" and d: "fst (deltas ! 1) = LatLon 40 (- 100)"
    by simp_all
  from r(3) z obtain deltas2 u2 g2 gi s' where b:
    "update u1 ?f g1 = Inr (deltas2, u2, g2)"
    "update_loop u1 ?f (take 1 (streams u1)) g1 = Inr (take 1 (streams u2), take 1 deltas2, gi)"
    "randomStream USA_OUTER (minTicks ?u) (maxTicks ?u) gi = Inr (s', \<lambda>n. gi (n + 4))"
    "deltas2 ! 1 = (pos s', fst (?f (pos s') (tickDuration ?u)))"
    "streams u2 ! 1 = \<lparr>pos = fst (?f (pos s') (tickDuration ?u)), ttl = ttl s' - Fin 1\<rparr>"
    by blast
  have "update ?u ?f (const_rng (1 / 2)) = Inr (deltas, u1, g1)
      \<and> fst (deltas ! 1) = LatLon 40 (- 100)
      \<and> ttl (streams u1 ! 1) = Fin 0
      \<and> update u1 ?f g1 = Inr (deltas2, u2, g2)
      \<and> update_loop u1 ?f (take 1 (streams u1)) g1 = Inr (take 1 (streams u2), take 1 deltas2, gi)
      \<and> randomStream USA_OUTER (Fin 5) (Fin 10) gi = Inr (s', \<lambda>n. gi (n + 4))
      \<and> fst (deltas2 ! 1) = pos s'
      \<and> ttl (streams u2 ! 1) = ttl s' - Fin 1"
    using r(1) d z b by simp
  then have "\<exists>deltas u1 g1 deltas2 u2 g2 gi s'.
        update ?u ?f (const_rng (1 / 2)) = Inr (deltas, u1, g1)
      \<and> fst (deltas ! 1) = LatLon 40 (- 100)
      \<and> ttl (streams u1 ! 1) = Fin 0
      \<and> update u1 ?f g1 = Inr (deltas2, u2, g2)
      \<and> update_loop u1 ?f (take 1 (streams u1)) g1 = Inr (take 1 (streams u2), take 1 deltas2, gi)
      \<and> randomStream USA_OUTER (Fin 5) (Fin 10) gi = Inr (s', \<lambda>n. gi (n + 4))
      \<and> fst (deltas2 ! 1) = pos s'
      \<and> ttl (streams u2 ! 1) = ttl s' - Fin 1" by blast
  with g i t c show ?thesis by blast
qed




section \<open>Properties of the interpolator\<close>

lemma square_new: "square n (Matrix_new n n)"
  by (simp add: square_def Matrix_new_def)

lemma Matrix_new_nth: "a < n \<Longrightarrow> b < n \<Longrightarrow> Matrix_new n n ! a ! b = Fin 0"
  by (simp add: Matrix_new_def)

lemma square_set:
  assumes "square n m"
  shows "square n (Matrix_set m i j v)"
proof -
  have len: "length m = n" and rows: "\<And>a. a < n \<Longrightarrow> length (m ! a) = n"
    using assms by (simp_all add: square_def)
  have "length (Matrix_set m i j v ! a) = n" if "a < n" for a
  proof (cases "a = i")
    case True
    then show ?thesis using that len rows [of i] by (simp add: Matrix_set_def)
  next
    case False
    then show ?thesis using that rows [of a] by (simp add: Matrix_set_def)
  qed
  then show ?thesis using len by (simp add: square_def Matrix_set_def)
qed

lemma Matrix_set_nth:
  assumes sq: "square n m" and i: "i < n" and j: "j < n" and a: "a < n" and b: "b < n"
  shows "Matrix_set m i j v ! a ! b = (if a = i \<and> b = j then v else m ! a ! b)"
proof -
  have li: "i < length m" and lj: "j < length (m ! i)"
    using sq i j by (simp_all add: square_def)
  show ?thesis
  proof (cases "a = i")
    case True
    then show ?thesis using li lj by (simp add: Matrix_set_def nth_list_update)
  next
    case False
    then show ?thesis by (simp add: Matrix_set_def)
  qed
qed

lemma Matrix_set_pair_nth:
  assumes "square n m" "i < n" "k < n" "a < n" "b < n"
  shows "Matrix_set (Matrix_set m i k v) k i v ! a ! b =
     (if a = k \<and> b = i then v else if a = i \<and> b = k then v else m ! a ! b)"
proof -
  have sq1: "square n (Matrix_set m i k v)" using assms(1) by (rule square_set)
  note outer = Matrix_set_nth [OF sq1 assms(3) assms(2) assms(4) assms(5), of v]
  note inner = Matrix_set_nth [OF assms(1) assms(2) assms(3) assms(4) assms(5), of v]
  show ?thesis unfolding outer inner by (rule refl)
qed

lemma bases_row_inv:
  assumes sq: "square n m" and i: "i < n" and k: "k \<le> i"
  shows "square n (foldl (\<lambda>m j. let weight = w j
            in Matrix_set (Matrix_set m i j weight) j i weight) m [0..<k])
    \<and> (\<forall>a < n. \<forall>b < n.
         foldl (\<lambda>m j. let weight = w j
            in Matrix_set (Matrix_set m i j weight) j i weight) m [0..<k] ! a ! b =
         (if a = i \<and> b < k then w b else if b = i \<and> a < k then w a else m ! a ! b))"
  using k
proof (induction k)
  case 0
  then show ?case using sq by simp
next
  case (Suc k)
  let ?step = "\<lambda>m j. let weight = w j in Matrix_set (Matrix_set m i j weight) j i weight"
  let ?m = "foldl ?step m [0..<k]"
  from Suc have ih: "square n ?m"
    "\<forall>a < n. \<forall>b < n. ?m ! a ! b =
       (if a = i \<and> b < k then w b else if b = i \<and> a < k then w a else m ! a ! b)"
    by simp_all
  have kn: "k < n" "k < i" using Suc.prems i by simp_all
  have eq: "foldl ?step m [0..<Suc k] = Matrix_set (Matrix_set ?m i k (w k)) k i (w k)"
    by (simp add: Let_def)
  have sq1: "square n (Matrix_set ?m i k (w k))" using ih(1) by (rule square_set)
  have sq2: "square n (foldl ?step m [0..<Suc k])" unfolding eq using sq1 by (rule square_set)
  have "\<forall>a < n. \<forall>b < n. foldl ?step m [0..<Suc k] ! a ! b =
      (if a = i \<and> b < Suc k then w b else if b = i \<and> a < Suc k then w a else m ! a ! b)"
  proof (intro allI impI)
    fix a b assume ab: "a < n" "b < n"
    have "foldl ?step m [0..<Suc k] ! a ! b =
        (if a = k \<and> b = i then w k else if a = i \<and> b = k then w k else ?m ! a ! b)"
      unfolding eq by (rule Matrix_set_pair_nth [OF ih(1) i kn(1) ab])
    also have "\<dots> = (if a = i \<and> b < Suc k then w b else if b = i \<and> a < Suc k then w a else m ! a ! b)"
      using ih(2) ab kn by (auto simp: less_Suc_eq)
    finally show "foldl ?step m [0..<Suc k] ! a ! b =
      (if a = i \<and> b < Suc k then w b else if b = i \<and> a < Suc k then w a else m ! a ! b)" .
  qed
  with sq2 show ?case by blast
qed

lemma bases_row_nth:
  assumes sq: "square n m" and i: "i < n"
  shows "square n (bases_row opts reports i m)
    \<and> (\<forall>a < n. \<forall>b < n. bases_row opts reports i m ! a ! b =
         (if a = i \<and> b < i
          then basisFn opts (norm' opts (StationReport.pos (reports ! i)) (StationReport.pos (reports ! b)))
          else if b = i \<and> a < i
          then basisFn opts (norm' opts (StationReport.pos (reports ! i)) (StationReport.pos (reports ! a)))
          else m ! a ! b))"
  unfolding bases_row_def
  using bases_row_inv [OF sq i order_refl,
      of "\<lambda>j. basisFn opts (norm' opts (StationReport.pos (reports ! i)) (StationReport.pos (reports ! j)))"]
  by simp

lemma bases_inv:
  assumes k: "k \<le> n"
  shows "square n (foldl (\<lambda>m i. Matrix_set (bases_row opts reports i m) i i (Fin 1))
            (Matrix_new n n) [0..<k])
    \<and> (\<forall>a < n. \<forall>b < n.
         foldl (\<lambda>m i. Matrix_set (bases_row opts reports i m) i i (Fin 1))
            (Matrix_new n n) [0..<k] ! a ! b =
         (if a < k \<and> b < k then kernel opts reports a b else Fin 0))"
  using k
proof (induction k)
  case 0
  then show ?case by (simp add: square_new Matrix_new_nth)
next
  case (Suc k)
  let ?step = "\<lambda>m i. Matrix_set (bases_row opts reports i m) i i (Fin 1)"
  let ?m = "foldl ?step (Matrix_new n n) [0..<k]"
  from Suc have ih: "square n ?m"
    "\<forall>a < n. \<forall>b < n. ?m ! a ! b = (if a < k \<and> b < k then kernel opts reports a b else Fin 0)"
    by simp_all
  have kn: "k < n" using Suc.prems by simp
  have eq: "foldl ?step (Matrix_new n n) [0..<Suc k] = Matrix_set (bases_row opts reports k ?m) k k (Fin 1)"
    by simp
  note row = bases_row_nth [OF ih(1) kn, of opts reports]
  have sq2: "square n (foldl ?step (Matrix_new n n) [0..<Suc k])"
    unfolding eq using row by (intro square_set) simp
  have "\<forall>a < n. \<forall>b < n. foldl ?step (Matrix_new n n) [0..<Suc k] ! a ! b =
      (if a < Suc k \<and> b < Suc k then kernel opts reports a b else Fin 0)"
  proof (intro allI impI)
    fix a b assume ab: "a < n" "b < n"
    have "foldl ?step (Matrix_new n n) [0..<Suc k] ! a ! b =
        (if a = k \<and> b = k then Fin 1 else bases_row opts reports k ?m ! a ! b)"
      unfolding eq using Matrix_set_nth [OF conjunct1 [OF row] kn kn ab] by simp
    also have "\<dots> = (if a < Suc k \<and> b < Suc k then kernel opts reports a b else Fin 0)"
      using row ih(2) ab kn by (auto simp: less_Suc_eq kernel_def)
    finally show "foldl ?step (Matrix_new n n) [0..<Suc k] ! a ! b =
      (if a < Suc k \<and> b < Suc k then kernel opts reports a b else Fin 0)" .
  qed
  with sq2 show ?case by blast
qed

lemma bases_nth:
  "square (length reports) (bases opts reports)
   \<and> (\<forall>a < length reports. \<forall>b < length reports.
        bases opts reports ! a ! b = kernel opts reports a b)"
  unfolding bases_def using bases_inv [OF order_refl, of "length reports" opts reports] by simp


lemma minus_swap: "(y::number) - x = - (x - y)"
  by (cases x; cases y) (simp_all add: minus_number_def)

lemma radians_uminus: "radians (- z) = - radians z"
  by (cases z) (simp_all add: radians_def)

lemma hav_uminus: "hav (- z) = hav z"
  by (cases z) (simp_all add: hav_def)

lemma times_commute: "(x::number) * y = y * x"
  by (cases x; cases y) (simp_all add: mult.commute)

lemma hav_radians_swap: "hav (radians (y - x)) = hav (radians (x - y))"
proof -
  have "hav (radians (y - x)) = hav (radians (- (x - y)))" using minus_swap [of y x] by simp
  then show ?thesis by (simp add: radians_uminus hav_uminus)
qed

lemma haversineDist_sym: "haversineDist a b = haversineDist b a"
  unfolding haversineDist_def Let_def
  using hav_radians_swap [of "lat b" "lat a"] hav_radians_swap [of "lon b" "lon a"]
    times_commute [of "Math_cos (radians (lat a))" "Math_cos (radians (lat b))"]
  by simp

lemma defaultOptions_self:
  "finitePos p \<Longrightarrow> basisFn defaultOptions (norm' defaultOptions p p) = Fin 1"
  by (simp add: defaultOptions_def haversineDist_self)

lemma kernel_row_default:
  assumes i: "i < length reports" and j: "j < length reports"
    and fin: "finitePos (StationReport.pos (reports ! i))"
  shows "kernel defaultOptions reports i j =
     basisFn defaultOptions
       (norm' defaultOptions (StationReport.pos (reports ! i)) (StationReport.pos (reports ! j)))"
proof (cases "i = j")
  case True
  then show ?thesis using defaultOptions_self [OF fin] by (simp add: kernel_def)
next
  case False
  then show ?thesis
    using haversineDist_sym [of "StationReport.pos (reports ! i)" "StationReport.pos (reports ! j)"]
    by (simp add: kernel_def defaultOptions_def)
qed

lemma base_is_row:
  assumes i: "i < length reports" and fin: "finitePos (StationReport.pos (reports ! i))"
  shows "map (basisFn defaultOptions)
           (map (\<lambda>report. norm' defaultOptions (StationReport.pos (reports ! i))
              (StationReport.pos report)) reports)
         = bases defaultOptions reports ! i"
proof (rule nth_equalityI)
  from bases_nth [of reports defaultOptions] i
  show "length (map (basisFn defaultOptions)
           (map (\<lambda>report. norm' defaultOptions (StationReport.pos (reports ! i))
              (StationReport.pos report)) reports)) = length (bases defaultOptions reports ! i)"
    by (simp add: square_def)
next
  fix j assume "j < length (map (basisFn defaultOptions)
           (map (\<lambda>report. norm' defaultOptions (StationReport.pos (reports ! i))
              (StationReport.pos report)) reports))"
  then have j: "j < length reports" by simp
  from bases_nth [of reports defaultOptions] i j
  have "bases defaultOptions reports ! i ! j = kernel defaultOptions reports i j" by blast
  with kernel_row_default [OF i j fin] j
  show "map (basisFn defaultOptions)
           (map (\<lambda>report. norm' defaultOptions (StationReport.pos (reports ! i))
              (StationReport.pos report)) reports) ! j = bases defaultOptions reports ! i ! j"
    by simp
qed

lemma mat_vec_nth: "i < length m \<Longrightarrow> mat_vec m w ! i = mmul (m ! i) w"
  by (simp add: mat_vec_def)

lemma bases_length: "length (bases opts reports) = length reports"
  using bases_nth [of reports opts] by (simp add: square_def)


lemma bases_empty: "bases opts [] = []"
  by (simp add: bases_def Matrix_new_def)

lemma bases_single: "bases opts [r] = [[Fin 1]]"
  by (simp add: bases_def bases_row_def Matrix_new_def Matrix_set_def)

lemma mmul_single: "mmul [b] [w] = b * w"
  by (simp add: mmul_def)

lemma plus_Fin0 [simp]: "x + Fin 0 = x"
  by (cases x) simp_all

lemma mmul_empty [simp]: "mmul [] w = Fin 0"
  by (simp add: mmul_def)

lemma interpolate_empty:
  "isFinite hours \<Longrightarrow>
   interpolate opts [] lw ow p hours = (p, \<lparr>dir = Fin 0, speed = Fin 0\<rparr>)"
proof -
  assume "isFinite hours"
  then obtain h where h: "hours = Fin h" by (cases hours) simp_all
  show ?thesis
    by (simp add: interpolate_def Let_def h EARTH_RADIUS_def atan2_def)
qed

text \<open>
  C2 (as amended). Given the empty report list, \<open>makeInterpolator\<close> hands the empty
  system to \<open>solve\<close>; when \<open>solve\<close> returns, the result is an ordinary interpolator whose
  evaluation never fails: for every position and every finite \<open>hours\<close> it returns the
  position unchanged, with wind speed 0 and direction 0.
\<close>

theorem makeInterpolator_empty:
  assumes "solve [] [] = Some w"
  shows "\<exists>f. makeInterpolator solve opts [] = Some f
     \<and> (\<forall>p hours. isFinite hours \<longrightarrow> f p hours = (p, \<lparr>dir = Fin 0, speed = Fin 0\<rparr>))"
proof -
  have "makeInterpolator solve opts [] = Some (interpolate opts [] w w)"
    using assms by (simp add: makeInterpolator_def bases_empty latSpeeds_def lonSpeeds_def)
  then show ?thesis using interpolate_empty by blast
qed

theorem makeInterpolator_empty_witness:
  "rhs_solver [] [] = Some []
   \<and> (\<exists>f. makeInterpolator rhs_solver defaultOptions [] = Some f
        \<and> f (LatLon 40 (- 100)) (Fin (1 / 2)) = (LatLon 40 (- 100), \<lparr>dir = Fin 0, speed = Fin 0\<rparr>))"
proof -
  have s: "rhs_solver [] [] = Some []" by (simp add: rhs_solver_def)
  from makeInterpolator_empty [of rhs_solver "[]" defaultOptions, OF s] obtain f where
    f: "makeInterpolator rhs_solver defaultOptions [] = Some f"
       "\<forall>p hours. isFinite hours \<longrightarrow> f p hours = (p, \<lparr>dir = Fin 0, speed = Fin 0\<rparr>)" by blast
  have "isFinite (Fin (1 / 2))" by simp
  with f(2) have "f (LatLon 40 (- 100)) (Fin (1 / 2)) = (LatLon 40 (- 100), \<lparr>dir = Fin 0, speed = Fin 0\<rparr>)"
    by blast
  with s f(1) show ?thesis by blast
qed

text \<open>
  C2 as stated fails: the interpolator built from no reports evaluates to a position
  and a zero wind, not to an error.
\<close>

theorem makeInterpolator_empty_counterexample:
  "makeInterpolator rhs_solver defaultOptions [] \<noteq> None
   \<and> the (makeInterpolator rhs_solver defaultOptions []) (LatLon 40 (- 100)) (Fin 1)
       = (LatLon 40 (- 100), \<lparr>dir = Fin 0, speed = Fin 0\<rparr>)"
  by (simp add: makeInterpolator_def bases_empty latSpeeds_def lonSpeeds_def rhs_solver_def
      interpolate_empty)


lemma plus_NaN [simp]: "x + NaN = NaN"
  by (cases x) simp_all

lemma times_NaN [simp]: "x * NaN = NaN"
  by (cases x) simp_all

lemma speeds_nonfinite:
  assumes "\<not> (isFinite s \<and> isFinite d)"
  shows "\<not> isFinite (s * Math_cos (radians d)) \<and> \<not> isFinite (s * Math_sin (radians d))"
  using assms by (cases s; cases d) (simp_all add: radians_def)

text \<open>
  C1 (as amended). \<open>makeInterpolator\<close> excludes no report. For every report list the
  kernel matrix has one row and one column per report, with 1 on the diagonal, both
  right-hand sides have one entry per report, entry \<open>i\<close> being
  \<open>speed_i \<cdot> cos (rad dir_i)\<close> and \<open>speed_i \<cdot> sin (rad dir_i)\<close>, and these are what the two
  calls of \<open>solve\<close> receive. A report whose wind speed or direction is not finite (the
  code only logs a warning for it) contributes a non-finite entry to both right-hand
  sides.
\<close>

theorem makeInterpolator_keeps_all_reports:
  "length (bases opts reports) = length reports
   \<and> (\<forall>a < length reports. length (bases opts reports ! a) = length reports
         \<and> bases opts reports ! a ! a = Fin 1)
   \<and> length (latSpeeds reports) = length reports
   \<and> length (lonSpeeds reports) = length reports
   \<and> (\<forall>i < length reports.
         latSpeeds reports ! i
           = speed (wind (reports ! i)) * Math_cos (radians (dir (wind (reports ! i))))
       \<and> lonSpeeds reports ! i
           = speed (wind (reports ! i)) * Math_sin (radians (dir (wind (reports ! i))))
       \<and> (\<not> windFinite (reports ! i) \<longrightarrow>
            \<not> isFinite (latSpeeds reports ! i) \<and> \<not> isFinite (lonSpeeds reports ! i)))
   \<and> makeInterpolator solve opts reports =
       (case solve (bases opts reports) (latSpeeds reports) of
          None \<Rightarrow> None
        | Some latWeights \<Rightarrow>
           (case solve (bases opts reports) (lonSpeeds reports) of
              None \<Rightarrow> None
            | Some lonWeights \<Rightarrow> Some (interpolate opts reports latWeights lonWeights)))"
proof -
  note K = bases_nth [of reports opts]
  have 1: "length (bases opts reports) = length reports" by (rule bases_length)
  have 2: "\<forall>a < length reports. length (bases opts reports ! a) = length reports
         \<and> bases opts reports ! a ! a = Fin 1"
    using K by (simp add: square_def kernel_def)
  have 3: "length (latSpeeds reports) = length reports" "length (lonSpeeds reports) = length reports"
    by (simp_all add: latSpeeds_def lonSpeeds_def)
  have 4: "\<forall>i < length reports.
         latSpeeds reports ! i
           = speed (wind (reports ! i)) * Math_cos (radians (dir (wind (reports ! i))))
       \<and> lonSpeeds reports ! i
           = speed (wind (reports ! i)) * Math_sin (radians (dir (wind (reports ! i))))
       \<and> (\<not> windFinite (reports ! i) \<longrightarrow>
            \<not> isFinite (latSpeeds reports ! i) \<and> \<not> isFinite (lonSpeeds reports ! i))"
    using speeds_nonfinite by (simp add: latSpeeds_def lonSpeeds_def windFinite_def)
  have 5: "makeInterpolator solve opts reports =
       (case solve (bases opts reports) (latSpeeds reports) of
          None \<Rightarrow> None
        | Some latWeights \<Rightarrow>
           (case solve (bases opts reports) (lonSpeeds reports) of
              None \<Rightarrow> None
            | Some lonWeights \<Rightarrow> Some (interpolate opts reports latWeights lonWeights)))"
    by (simp add: makeInterpolator_def Let_def)
  from 1 2 3 4 5 show ?thesis by blast
qed

theorem makeInterpolator_keeps_all_reports_witness:
  "0 < length [\<lparr>station = ''MSO'', pos = LatLon 40 (- 100), wind = \<lparr>dir = Fin 0, speed = NaN\<rparr>\<rparr>]
   \<and> \<not> windFinite ([\<lparr>station = ''MSO'', pos = LatLon 40 (- 100), wind = \<lparr>dir = Fin 0, speed = NaN\<rparr>\<rparr>] ! 0)
   \<and> length (bases defaultOptions
        [\<lparr>station = ''MSO'', pos = LatLon 40 (- 100), wind = \<lparr>dir = Fin 0, speed = NaN\<rparr>\<rparr>]) = 1
   \<and> \<not> isFinite (latSpeeds
        [\<lparr>station = ''MSO'', pos = LatLon 40 (- 100), wind = \<lparr>dir = Fin 0, speed = NaN\<rparr>\<rparr>] ! 0)
   \<and> \<not> isFinite (lonSpeeds
        [\<lparr>station = ''MSO'', pos = LatLon 40 (- 100), wind = \<lparr>dir = Fin 0, speed = NaN\<rparr>\<rparr>] ! 0)"
proof -
  let ?rs = "[\<lparr>station = ''MSO'', pos = LatLon 40 (- 100), wind = \<lparr>dir = Fin 0, speed = NaN\<rparr>\<rparr>]"
  have i: "0 < length ?rs" by simp
  have nf: "\<not> windFinite (?rs ! 0)" by (simp add: windFinite_def)
  note T = makeInterpolator_keeps_all_reports [of defaultOptions ?rs rhs_solver]
  from T have l: "length (bases defaultOptions ?rs) = length ?rs" by (elim conjE)
  from T have "\<forall>i < length ?rs.
         latSpeeds ?rs ! i
           = speed (wind (?rs ! i)) * Math_cos (radians (dir (wind (?rs ! i))))
       \<and> lonSpeeds ?rs ! i
           = speed (wind (?rs ! i)) * Math_sin (radians (dir (wind (?rs ! i))))
       \<and> (\<not> windFinite (?rs ! i) \<longrightarrow>
            \<not> isFinite (latSpeeds ?rs ! i) \<and> \<not> isFinite (lonSpeeds ?rs ! i))" by (elim conjE)
  with i nf have "\<not> isFinite (latSpeeds ?rs ! 0) \<and> \<not> isFinite (lonSpeeds ?rs ! 0)" by blast
  with i nf l show ?thesis by simp
qed

text \<open>
  C1 as stated fails: a single report with a \<open>NaN\<close> speed is in the kernel matrix and in
  both right-hand sides, while the finite reports alone would give the empty system,
  and the interpolator returned differs from the one of the finite reports.
\<close>

theorem makeInterpolator_nan_counterexample:
  "\<not> windFinite \<lparr>station = ''MSO'', pos = LatLon 40 (- 100), wind = \<lparr>dir = Fin 0, speed = NaN\<rparr>\<rparr>
   \<and> bases defaultOptions
        [\<lparr>station = ''MSO'', pos = LatLon 40 (- 100), wind = \<lparr>dir = Fin 0, speed = NaN\<rparr>\<rparr>] = [[Fin 1]]
   \<and> latSpeeds [\<lparr>station = ''MSO'', pos = LatLon 40 (- 100), wind = \<lparr>dir = Fin 0, speed = NaN\<rparr>\<rparr>] = [NaN]
   \<and> lonSpeeds [\<lparr>station = ''MSO'', pos = LatLon 40 (- 100), wind = \<lparr>dir = Fin 0, speed = NaN\<rparr>\<rparr>] = [NaN]
   \<and> bases defaultOptions (filter windFinite
        [\<lparr>station = ''MSO'', pos = LatLon 40 (- 100), wind = \<lparr>dir = Fin 0, speed = NaN\<rparr>\<rparr>]) = []
   \<and> latSpeeds (filter windFinite
        [\<lparr>station = ''MSO'', pos = LatLon 40 (- 100), wind = \<lparr>dir = Fin 0, speed = NaN\<rparr>\<rparr>]) = []
   \<and> the (makeInterpolator rhs_solver defaultOptions
        [\<lparr>station = ''MSO'', pos = LatLon 40 (- 100), wind = \<lparr>dir = Fin 0, speed = NaN\<rparr>\<rparr>])
        (LatLon 40 (- 100)) (Fin 1)
       = (\<lparr>lat = NaN, lon = NaN\<rparr>, \<lparr>dir = NaN, speed = NaN\<rparr>)
   \<and> the (makeInterpolator rhs_solver defaultOptions (filter windFinite
        [\<lparr>station = ''MSO'', pos = LatLon 40 (- 100), wind = \<lparr>dir = Fin 0, speed = NaN\<rparr>\<rparr>]))
        (LatLon 40 (- 100)) (Fin 1)
       = (LatLon 40 (- 100), \<lparr>dir = Fin 0, speed = Fin 0\<rparr>)"
proof -
  let ?r = "\<lparr>station = ''MSO'', pos = LatLon 40 (- 100), wind = \<lparr>dir = Fin 0, speed = NaN\<rparr>\<rparr>"
  have nf: "\<not> windFinite ?r" by (simp add: windFinite_def)
  then have fl: "filter windFinite [?r] = []" by simp
  have la: "latSpeeds [?r] = [NaN]" by (simp add: latSpeeds_def)
  have lo: "lonSpeeds [?r] = [NaN]" by (simp add: lonSpeeds_def)
  have self: "basisFn defaultOptions (norm' defaultOptions (LatLon 40 (- 100)) (LatLon 40 (- 100))) = Fin 1"
    by (rule defaultOptions_self) simp
  have ev: "the (makeInterpolator rhs_solver defaultOptions [?r]) (LatLon 40 (- 100)) (Fin 1)
       = (\<lparr>lat = NaN, lon = NaN\<rparr>, \<lparr>dir = NaN, speed = NaN\<rparr>)"
    by (simp add: makeInterpolator_def rhs_solver_def la lo interpolate_def Let_def self mmul_single
        degrees_def)
  have ev0: "the (makeInterpolator rhs_solver defaultOptions (filter windFinite [?r]))
        (LatLon 40 (- 100)) (Fin 1) = (LatLon 40 (- 100), \<lparr>dir = Fin 0, speed = Fin 0\<rparr>)"
    unfolding fl
    by (simp add: makeInterpolator_def bases_empty latSpeeds_def lonSpeeds_def rhs_solver_def
      interpolate_empty)
  show ?thesis
    using nf la lo ev ev0 unfolding fl by (simp add: bases_single bases_empty latSpeeds_def)
qed


text \<open>
  C3 (as amended). In every tick with draws in \<open>[0, 1)\<close>, every segment starts at a finite
  position (a position inside the region, or a freshly spawned one), and its end point,
  which is also the position stored in the pool, is what the interpolator returned for
  that start, stored without any check. If the interpolator maps finite positions to
  finite positions at the tick duration, then every position in the pool and every
  segment end point is finite after the tick. A position that is not finite fails the
  region test, so the next tick respawns its stream.
\<close>

theorem update_finite_positions:
  assumes g: "valid_rng g"
  shows "\<exists>deltas u' g'. update u f g = Inr (deltas, u', g')
    \<and> length deltas = length (streams u) \<and> length (streams u') = length (streams u)
    \<and> (\<forall>i < length (streams u).
          finitePos (fst (deltas ! i))
        \<and> snd (deltas ! i) = fst (f (fst (deltas ! i)) (tickDuration u))
        \<and> pos (streams u' ! i) = snd (deltas ! i))
    \<and> ((\<forall>p. finitePos p \<longrightarrow> finitePos (fst (f p (tickDuration u)))) \<longrightarrow>
          (\<forall>s \<in> set (streams u'). finitePos (pos s))
        \<and> (\<forall>d \<in> set deltas. finitePos (fst d) \<and> finitePos (snd d)))
    \<and> (\<forall>s. \<not> finitePos (pos s) \<longrightarrow> \<not> MultiRect_contains USA_OUTER (pos s))"
proof -
  from update_total [OF g, of u f] obtain ds ss g' where
    t: "update u f g = Inr (ds, u\<lparr>streams := ss\<rparr>, g')"
       "length ss = length (streams u)" "length ds = length (streams u)"
       "\<forall>i < length (streams u). \<exists>gi gi'. valid_rng gi
          \<and> update_stream u f (streams u ! i) gi = Inr (ss ! i, ds ! i, gi')" by blast
  have each: "\<forall>i < length (streams u). finitePos (fst (ds ! i))
        \<and> snd (ds ! i) = fst (f (fst (ds ! i)) (tickDuration u)) \<and> pos (ss ! i) = snd (ds ! i)"
  proof (intro allI impI)
    fix i assume "i < length (streams u)"
    with t(4) obtain gi gi' where gi: "valid_rng gi"
      "update_stream u f (streams u ! i) gi = Inr (ss ! i, ds ! i, gi')" by blast
    from update_stream_total [OF gi(1), of u f "streams u ! i"] gi(2)
    show "finitePos (fst (ds ! i))
        \<and> snd (ds ! i) = fst (f (fst (ds ! i)) (tickDuration u)) \<and> pos (ss ! i) = snd (ds ! i)"
      by auto
  qed
  have fin: "(\<forall>s \<in> set ss. finitePos (pos s)) \<and> (\<forall>d \<in> set ds. finitePos (fst d) \<and> finitePos (snd d))"
    if f: "\<forall>p. finitePos p \<longrightarrow> finitePos (fst (f p (tickDuration u)))"
  proof -
    have a: "\<forall>i < length (streams u). finitePos (fst (ds ! i)) \<and> finitePos (snd (ds ! i))
        \<and> finitePos (pos (ss ! i))"
      using each f by simp
    have "finitePos (pos s)" if "s \<in> set ss" for s
    proof -
      from that obtain i where "i < length ss" "ss ! i = s" by (auto simp: in_set_conv_nth)
      with a t(2) show ?thesis by auto
    qed
    moreover have "finitePos (fst d) \<and> finitePos (snd d)" if "d \<in> set ds" for d
    proof -
      from that obtain i where "i < length ds" "ds ! i = d" by (auto simp: in_set_conv_nth)
      with a t(3) show ?thesis by auto
    qed
    ultimately show ?thesis by blast
  qed
  have out: "\<forall>s. \<not> finitePos (pos s) \<longrightarrow> \<not> MultiRect_contains USA_OUTER (pos s)"
    using MultiRect_contains_finite by blast
  have "update u f g = Inr (ds, u\<lparr>streams := ss\<rparr>, g')
    \<and> length ds = length (streams u) \<and> length (streams (u\<lparr>streams := ss\<rparr>)) = length (streams u)
    \<and> (\<forall>i < length (streams u).
          finitePos (fst (ds ! i))
        \<and> snd (ds ! i) = fst (f (fst (ds ! i)) (tickDuration u))
        \<and> pos (streams (u\<lparr>streams := ss\<rparr>) ! i) = snd (ds ! i))
    \<and> ((\<forall>p. finitePos p \<longrightarrow> finitePos (fst (f p (tickDuration u)))) \<longrightarrow>
          (\<forall>s \<in> set (streams (u\<lparr>streams := ss\<rparr>)). finitePos (pos s))
        \<and> (\<forall>d \<in> set ds. finitePos (fst d) \<and> finitePos (snd d)))
    \<and> (\<forall>s. \<not> finitePos (pos s) \<longrightarrow> \<not> MultiRect_contains USA_OUTER (pos s))"
    using t(1,2,3) each fin out by simp
  then show ?thesis by blast
qed


theorem update_finite_positions_witness:
  "valid_rng (const_rng (1 / 2))
   \<and> finitePos (fst (interpolate defaultOptions [] [] [] (LatLon 40 (- 100))
         (tickDuration \<lparr>tickDuration = Fin (1 / 2), minTicks = Fin 5, maxTicks = Fin 10,
                 streams = [\<lparr>pos = LatLon 40 (- 100), ttl = Fin 3\<rparr>]\<rparr>)))
   \<and> (\<exists>deltas u' g'.
        update \<lparr>tickDuration = Fin (1 / 2), minTicks = Fin 5, maxTicks = Fin 10,
                 streams = [\<lparr>pos = LatLon 40 (- 100), ttl = Fin 3\<rparr>]\<rparr>
          (interpolate defaultOptions [] [] []) (const_rng (1 / 2)) = Inr (deltas, u', g')
        \<and> length deltas = 1 \<and> length (streams u') = 1
        \<and> finitePos (fst (deltas ! 0)) \<and> finitePos (snd (deltas ! 0))
        \<and> finitePos (pos (streams u' ! 0)))"
proof -
  let ?u = "\<lparr>tickDuration = Fin (1 / 2), minTicks = Fin 5, maxTicks = Fin 10,
             streams = [\<lparr>pos = LatLon 40 (- 100), ttl = Fin 3\<rparr>]\<rparr>"
  let ?f = "interpolate defaultOptions [] [] []"
  have g: "valid_rng (const_rng (1 / 2))" by simp
  have f: "\<forall>p. finitePos p \<longrightarrow> finitePos (fst (?f p (tickDuration ?u)))"
    by (simp add: interpolate_empty)
  then have f0: "finitePos (fst (?f (LatLon 40 (- 100)) (tickDuration ?u)))" by simp
  have i: "0 < length (streams ?u)" by simp
  from update_finite_positions [OF g, of ?u ?f] obtain deltas u' g' where r:
    "update ?u ?f (const_rng (1 / 2)) = Inr (deltas, u', g')"
    "length deltas = length (streams ?u)" "length (streams u') = length (streams ?u)"
    "(\<forall>p. finitePos p \<longrightarrow> finitePos (fst (?f p (tickDuration ?u)))) \<longrightarrow>
          (\<forall>s \<in> set (streams u'). finitePos (pos s))
        \<and> (\<forall>d \<in> set deltas. finitePos (fst d) \<and> finitePos (snd d))"
    by (elim conjE exE)
  from r(4) f have b: "(\<forall>s \<in> set (streams u'). finitePos (pos s))
        \<and> (\<forall>d \<in> set deltas. finitePos (fst d) \<and> finitePos (snd d))" by (rule mp)
  have l: "length deltas = 1" "length (streams u') = 1" using r(2,3) by simp_all
  then have "deltas ! 0 \<in> set deltas" "streams u' ! 0 \<in> set (streams u')" by simp_all
  with b have "finitePos (fst (deltas ! 0)) \<and> finitePos (snd (deltas ! 0))
        \<and> finitePos (pos (streams u' ! 0))" by blast
  with r(1) l have "\<exists>deltas u' g'.
        update ?u ?f (const_rng (1 / 2)) = Inr (deltas, u', g')
        \<and> length deltas = 1 \<and> length (streams u') = 1
        \<and> finitePos (fst (deltas ! 0)) \<and> finitePos (snd (deltas ! 0))
        \<and> finitePos (pos (streams u' ! 0))" by blast
  with g f0 show ?thesis by blast
qed

lemma LatLon_sel [simp]: "lat (LatLon a b) = Fin a" "lon (LatLon a b) = Fin b"
  by (simp_all add: LatLon_def)

text \<open>
  C3 as stated fails: with one station reporting an infinite speed, the interpolator
  returns a position that is not finite for a stream at a finite position, and the
  tick stores it in the pool and returns it as the end of the segment.
\<close>

theorem update_nonfinite_counterexample:
  "makeInterpolator rhs_solver defaultOptions
      [\<lparr>station = ''DEN'', pos = LatLon 40 (- 100), wind = \<lparr>dir = Fin 0, speed = PInf\<rparr>\<rparr>]
     = Some (interpolate defaultOptions
         [\<lparr>station = ''DEN'', pos = LatLon 40 (- 100), wind = \<lparr>dir = Fin 0, speed = PInf\<rparr>\<rparr>]
         [PInf] [NaN])
   \<and> finitePos (LatLon 40 (- 100))
   \<and> update \<lparr>tickDuration = Fin (1 / 2), minTicks = Fin 5, maxTicks = Fin 10,
              streams = [\<lparr>pos = LatLon 40 (- 100), ttl = Fin 5\<rparr>]\<rparr>
        (interpolate defaultOptions
         [\<lparr>station = ''DEN'', pos = LatLon 40 (- 100), wind = \<lparr>dir = Fin 0, speed = PInf\<rparr>\<rparr>]
         [PInf] [NaN])
        (const_rng (1 / 2))
     = Inr ([(LatLon 40 (- 100), \<lparr>lat = PInf, lon = NaN\<rparr>)],
            \<lparr>tickDuration = Fin (1 / 2), minTicks = Fin 5, maxTicks = Fin 10,
              streams = [\<lparr>pos = \<lparr>lat = PInf, lon = NaN\<rparr>, ttl = Fin 4\<rparr>]\<rparr>,
            const_rng (1 / 2))
   \<and> \<not> finitePos \<lparr>lat = PInf, lon = NaN\<rparr>"
proof -
  let ?r = "\<lparr>station = ''DEN'', pos = LatLon 40 (- 100), wind = \<lparr>dir = Fin 0, speed = PInf\<rparr>\<rparr>"
  let ?f = "interpolate defaultOptions [?r] [PInf] [NaN]"
  let ?u = "\<lparr>tickDuration = Fin (1 / 2), minTicks = Fin 5, maxTicks = Fin 10,
              streams = [\<lparr>pos = LatLon 40 (- 100), ttl = Fin 5\<rparr>]\<rparr>"
  have la: "latSpeeds [?r] = [PInf]" by (simp add: latSpeeds_def)
  have lo: "lonSpeeds [?r] = [NaN]" by (simp add: lonSpeeds_def)
  have mk: "makeInterpolator rhs_solver defaultOptions [?r] = Some ?f"
    by (simp add: makeInterpolator_def rhs_solver_def la lo)
  have self: "basisFn defaultOptions (norm' defaultOptions (LatLon 40 (- 100)) (LatLon 40 (- 100))) = Fin 1"
    by (rule defaultOptions_self) simp
  have ev: "?f (LatLon 40 (- 100)) (Fin (1 / 2)) = (\<lparr>lat = PInf, lon = NaN\<rparr>, \<lparr>dir = NaN, speed = PInf\<rparr>)"
    by (simp add: interpolate_def Let_def self mmul_single degrees_def EARTH_RADIUS_def)
  have keep: "\<not> ttl \<lparr>pos = LatLon 40 (- 100), ttl = Fin 5\<rparr> \<le> Fin 0"
    "MultiRect_contains USA_OUTER (pos \<lparr>pos = LatLon 40 (- 100), ttl = Fin 5\<rparr>)"
    using USA_OUTER_contains_sample by simp_all
  have st: "update_stream ?u ?f \<lparr>pos = LatLon 40 (- 100), ttl = Fin 5\<rparr> (const_rng (1 / 2))
      = Inr (\<lparr>pos = \<lparr>lat = PInf, lon = NaN\<rparr>, ttl = Fin 4\<rparr>,
             (LatLon 40 (- 100), \<lparr>lat = PInf, lon = NaN\<rparr>), const_rng (1 / 2))"
    unfolding update_stream_keep [OF keep] by (simp add: ev)
  have up: "update ?u ?f (const_rng (1 / 2))
     = Inr ([(LatLon 40 (- 100), \<lparr>lat = PInf, lon = NaN\<rparr>)],
            \<lparr>tickDuration = Fin (1 / 2), minTicks = Fin 5, maxTicks = Fin 10,
              streams = [\<lparr>pos = \<lparr>lat = PInf, lon = NaN\<rparr>, ttl = Fin 4\<rparr>]\<rparr>,
            const_rng (1 / 2))"
    by (simp add: update_def st)
  have nf: "\<not> finitePos \<lparr>lat = PInf, lon = NaN\<rparr>" by (simp add: finitePos_def)
  from mk up nf show ?thesis by simp
qed

lemma trunc_floor: "Fin 0 \<le> x \<Longrightarrow> Math_trunc x = Math_floor x"
  by (cases x) simp_all

lemma min_trunc_nonneg:
  assumes "Fin 0 \<le> x"
  shows "\<exists>m. Math_min (Fin 10) (Math_trunc x) = Fin m \<and> 0 \<le> m"
  using assms by (cases x) (simp_all split: if_splits)

subsection \<open>Rounding to the double format\<close>

lemma round_even_nonneg: "0 \<le> m \<Longrightarrow> 0 \<le> round_even m"
  unfolding round_even_def Let_def by auto

lemma round_even_abs_le:
  assumes "\<bar>m\<bar> \<le> of_int k"
  shows "\<bar>of_int (round_even m) :: real\<bar> \<le> of_int k"
proof -
  have up: "m \<le> of_int k" and lo: "- of_int k \<le> m" using assms by linarith+
  have fl: "\<lfloor>m\<rfloor> \<le> k" using up by (metis floor_mono floor_of_int)
  have fl2: "- k \<le> \<lfloor>m\<rfloor>" using lo by (simp add: le_floor_iff)
  have hi: "round_even m \<le> k"
  proof (cases "\<lfloor>m\<rfloor> = k")
    case True
    then have "m - of_int \<lfloor>m\<rfloor> \<le> 0" using up by simp
    then show ?thesis using True unfolding round_even_def Let_def by auto
  next
    case False
    then have "\<lfloor>m\<rfloor> + 1 \<le> k" using fl by linarith
    then show ?thesis using fl unfolding round_even_def Let_def by auto
  qed
  have "- k \<le> round_even m" using fl2 unfolding round_even_def Let_def by auto
  then have "- (of_int k :: real) \<le> of_int (round_even m)" by (metis of_int_le_iff of_int_minus)
  moreover have "(of_int (round_even m) :: real) \<le> of_int k" using hi by simp
  ultimately show ?thesis by (simp add: abs_le_iff)
qed

lemma quantum_powr: "power_int (2::real) (e - 52) = 2 powr (of_int e - 52)"
  using powr_real_of_int' [of "2::real" "e - 52"] by simp

lemma binade_pos:
  assumes "2 ^ n \<le> \<bar>x\<bar>" "\<bar>x\<bar> < 2 ^ Suc n"
  shows "binade x = int n"
proof -
  have pos: "0 < \<bar>x\<bar>" using assms(1) by (smt (verit) zero_less_power)
  then have nz: "x \<noteq> 0" by auto
  have "(2::real) powr of_int (int n) \<le> \<bar>x\<bar>" using assms(1) by (simp add: powr_realpow)
  moreover have "\<bar>x\<bar> < (2::real) powr of_int (int n + 1)"
    using assms(2) by (simp add: powr_realpow powr_add)
  ultimately have "\<lfloor>log 2 \<bar>x\<bar>\<rfloor> = int n"
    using floor_log_eq_powr_iff [of "\<bar>x\<bar>" 2 "int n"] pos by simp
  then show ?thesis unfolding binade_def using nz by simp
qed

lemma floor_log2_neg:
  assumes "1 / 2 ^ n \<le> \<bar>x\<bar>" "\<bar>x\<bar> < 2 / 2 ^ n"
  shows "\<lfloor>log 2 \<bar>x\<bar>\<rfloor> = - int n"
proof -
  have pos: "0 < \<bar>x\<bar>" using assms(1) by (smt (verit) zero_less_power divide_pos_pos)
  have e: "(2::real) powr of_int (- int n) = 1 / 2 ^ n"
    by (simp add: powr_minus powr_realpow divide_simps)
  have "(of_int (- int n + 1) :: real) = of_int (- int n) + 1" by simp
  then have "(2::real) powr of_int (- int n + 1) = 2 powr of_int (- int n) * 2 powr 1"
    by (simp only: powr_add)
  then have e2: "(2::real) powr of_int (- int n + 1) = 2 / 2 ^ n"
    unfolding e by simp
  show ?thesis
    using floor_log_eq_powr_iff [of "\<bar>x\<bar>" 2 "- int n"] pos assms(1,2) e e2 by simp
qed

lemma binade_neg:
  assumes "1 / 2 ^ n \<le> \<bar>x\<bar>" "\<bar>x\<bar> < 2 / 2 ^ n" "n \<le> 1022"
  shows "binade x = - int n"
proof -
  have pos: "0 < \<bar>x\<bar>" using assms(1) by (smt (verit) zero_less_power divide_pos_pos)
  then have nz: "x \<noteq> 0" by auto
  from floor_log2_neg [OF assms(1,2)] show ?thesis
    unfolding binade_def using assms(3) nz by simp
qed

text \<open>The exponent of the binade from the bit length of an integer, for evaluation.\<close>

lemma binade_code [code]:
  "binade x =
     (if x = 0 then - 1022
      else if 1 \<le> \<bar>x\<bar> then bitlen \<lfloor>\<bar>x\<bar>\<rfloor> - 1
      else max (- bitlen (\<lceil>1 / \<bar>x\<bar>\<rceil> - 1)) (- 1022))"
proof (cases "x = 0")
  case True
  then show ?thesis by (simp add: binade_def)
next
  case nz: False
  then have pos: "0 < \<bar>x\<bar>" by simp
  show ?thesis
  proof (cases "1 \<le> \<bar>x\<bar>")
    case True
    define n where "n = \<lfloor>\<bar>x\<bar>\<rfloor>"
    have n: "0 < n" unfolding n_def using True by linarith
    define k where "k = bitlen n - 1"
    from bitlen_bounds [OF n] have b: "2 ^ nat k \<le> n" "n < 2 ^ nat (bitlen n)"
      unfolding k_def by simp_all
    have k: "0 \<le> k" unfolding k_def using n by (simp add: bitlen_alt_def)
    then have kk: "nat (bitlen n) = Suc (nat k)" unfolding k_def by simp
    have "(2::real) ^ nat k \<le> of_int n" using b(1) by (metis of_int_le_iff of_int_numeral of_int_power)
    also have "\<dots> \<le> \<bar>x\<bar>" unfolding n_def by simp
    finally have lo: "(2::real) ^ nat k \<le> \<bar>x\<bar>" .
    have "n + 1 \<le> 2 ^ Suc (nat k)" using b(2) unfolding kk by simp
    then have "(of_int (n + 1) :: real) \<le> 2 ^ Suc (nat k)"
      by (metis of_int_le_iff of_int_numeral of_int_power)
    moreover have "\<bar>x\<bar> < of_int (n + 1)" unfolding n_def by linarith
    ultimately have hi: "\<bar>x\<bar> < 2 ^ Suc (nat k)" by linarith
    from binade_pos [OF lo hi] have "binade x = k" using k by simp
    then show ?thesis using nz True by (simp add: k_def n_def)
  next
    case False
    then have lt: "\<bar>x\<bar> < 1" by simp
    define y where "y = 1 / \<bar>x\<bar>"
    have y: "1 < y" unfolding y_def using pos lt by simp
    define c where "c = \<lceil>y\<rceil>"
    have c: "0 < c - 1" unfolding c_def using y by linarith
    define j where "j = bitlen (c - 1)"
    from bitlen_bounds [OF c] have b: "2 ^ nat (j - 1) \<le> c - 1" "c - 1 < 2 ^ nat j"
      unfolding j_def by simp_all
    have j: "1 \<le> j" unfolding j_def using c by (simp add: bitlen_alt_def)
    have "c \<le> 2 ^ nat j" using b(2) by simp
    then have "(of_int c :: real) \<le> 2 ^ nat j"
      by (metis of_int_le_iff of_int_numeral of_int_power)
    moreover have "y \<le> of_int c" unfolding c_def by simp
    ultimately have yhi: "y \<le> 2 ^ nat j" by linarith
    have "(2::real) ^ nat (j - 1) \<le> of_int (c - 1)"
      using b(1) by (metis of_int_le_iff of_int_numeral of_int_power)
    moreover have "of_int (c - 1) < y" unfolding c_def by linarith
    ultimately have ylo: "2 ^ nat (j - 1) < y" by linarith
    have lo: "1 / 2 ^ nat j \<le> \<bar>x\<bar>"
    proof -
      have "\<bar>x\<bar> * y = 1" unfolding y_def using pos by simp
      then have "1 \<le> \<bar>x\<bar> * 2 ^ nat j"
        using yhi pos by (metis abs_ge_zero mult_left_mono)
      then show ?thesis by (simp add: divide_le_eq)
    qed
    have hi: "\<bar>x\<bar> < 2 / 2 ^ nat j"
    proof -
      have e: "(2::real) ^ nat j = 2 * 2 ^ nat (j - 1)"
        using j by (metis Suc_nat_eq_nat_zadd1 add.commute diff_add_cancel diff_ge_0_iff_ge power_Suc)
      have "\<bar>x\<bar> * y = 1" unfolding y_def using pos by simp
      moreover have "\<bar>x\<bar> * 2 ^ nat (j - 1) < \<bar>x\<bar> * y"
        using ylo pos by (rule mult_strict_left_mono)
      ultimately have "\<bar>x\<bar> * 2 ^ nat (j - 1) < 1" by simp
      then show ?thesis unfolding e by (simp add: less_divide_eq)
    qed
    from floor_log2_neg [OF lo hi] have "\<lfloor>log 2 \<bar>x\<bar>\<rfloor> = - int (nat j)" .
    then have "binade x = max (- j) (- 1022)" unfolding binade_def using nz j by simp
    then show ?thesis using nz False by (simp add: j_def c_def y_def)
  qed
qed

lemma fl64_nonneg: "0 \<le> x \<Longrightarrow> Fin 0 \<le> fl64 x"
proof -
  assume x: "0 \<le> x"
  show ?thesis
  proof (cases "x = 0")
    case True then show ?thesis by (simp add: fl64_def)
  next
    case False
    define q :: real where "q = power_int 2 (binade x - 52)"
    have q: "0 < q" unfolding q_def quantum_powr by simp
    have "0 \<le> x / q" using x q by simp
    then have "0 \<le> round_even (x / q)" by (rule round_even_nonneg)
    then have "0 \<le> (of_int (round_even (x / q)) :: real) * q" using q by simp
    then show ?thesis using False x unfolding fl64_def Let_def q_def [symmetric] by simp
  qed
qed

lemma fl64_pos_binade:
  assumes "2 ^ n \<le> \<bar>x\<bar>" "\<bar>x\<bar> < 2 ^ Suc n" "n \<le> 1022"
  shows "fl64 x = Fin (of_int (round_even (x * 2 ^ 52 / 2 ^ n)) * 2 ^ n / 2 ^ 52)"
proof -
  have nz: "x \<noteq> 0" using assms(1) by (smt (verit) zero_less_power)
  have b: "binade x = int n" using assms(1,2) by (rule binade_pos)
  define q :: real where "q = 2 ^ n / 2 ^ 52"
  have qe: "power_int 2 (binade x - 52) = q"
    unfolding quantum_powr b q_def by (simp add: powr_diff powr_realpow)
  have q: "0 < q" unfolding q_def by simp
  have xq: "x / q = x * 2 ^ 52 / 2 ^ n" unfolding q_def by simp
  have "\<bar>x / q\<bar> < 2 ^ 53"
  proof -
    have c: "(0::real) < 2 ^ 52 / 2 ^ n" by simp
    have "\<bar>x / q\<bar> = \<bar>x\<bar> * (2 ^ 52 / 2 ^ n)" unfolding xq by (simp add: abs_mult)
    also have "\<dots> < 2 ^ Suc n * (2 ^ 52 / 2 ^ n)"
      using assms(2) c by (rule mult_strict_right_mono)
    also have "\<dots> = 2 ^ 53" by simp
    finally show ?thesis .
  qed
  then have "\<bar>x / q\<bar> \<le> of_int (2 ^ 53)" by simp
  then have r: "\<bar>of_int (round_even (x / q)) :: real\<bar> \<le> of_int (2 ^ 53)"
    by (rule round_even_abs_le)
  have "\<bar>of_int (round_even (x / q)) * q\<bar> = \<bar>of_int (round_even (x / q)) :: real\<bar> * q"
    using q by (simp add: abs_mult)
  also have "\<dots> \<le> 2 ^ 53 * q" using r q by simp
  also have "\<dots> = 2 ^ Suc n" unfolding q_def by simp
  also have "\<dots> \<le> 2 ^ 1023" using assms(3) by (intro power_increasing) simp_all
  also have "\<dots> < (2::real) ^ 1024" by (intro power_strict_increasing) simp_all
  finally have small: "\<not> 2 ^ 1024 \<le> \<bar>of_int (round_even (x / q)) * q\<bar>" by simp
  show ?thesis
    unfolding fl64_def Let_def qe using nz small
    by (simp add: xq) (simp add: q_def)
qed

lemma fl64_neg_binade:
  assumes "1 / 2 ^ n \<le> \<bar>x\<bar>" "\<bar>x\<bar> < 2 / 2 ^ n" "n \<le> 1022"
  shows "fl64 x = Fin (of_int (round_even (x * 2 ^ (52 + n))) / 2 ^ (52 + n))"
proof -
  have nz: "x \<noteq> 0" using assms(1) by (smt (verit) zero_less_power divide_pos_pos)
  have b: "binade x = - int n" using assms by (rule binade_neg)
  define q :: real where "q = 1 / 2 ^ (52 + n)"
  have qe: "power_int 2 (binade x - 52) = q"
    unfolding quantum_powr b q_def
    by (simp add: powr_diff powr_minus powr_realpow power_add divide_simps)
  have q: "0 < q" unfolding q_def by simp
  have xq: "x / q = x * 2 ^ (52 + n)" unfolding q_def by simp
  have "\<bar>x / q\<bar> < 2 ^ 53"
  proof -
    have c: "(0::real) < 2 ^ (52 + n)" by simp
    have "\<bar>x / q\<bar> = \<bar>x\<bar> * 2 ^ (52 + n)" unfolding xq by (simp add: abs_mult)
    also have "\<dots> < 2 / 2 ^ n * 2 ^ (52 + n)"
      using assms(2) c by (rule mult_strict_right_mono)
    also have "\<dots> = 2 ^ 53" by (simp add: power_add)
    finally show ?thesis .
  qed
  then have "\<bar>x / q\<bar> \<le> of_int (2 ^ 53)" by simp
  then have r: "\<bar>of_int (round_even (x / q)) :: real\<bar> \<le> of_int (2 ^ 53)"
    by (rule round_even_abs_le)
  have "\<bar>of_int (round_even (x / q)) * q\<bar> = \<bar>of_int (round_even (x / q)) :: real\<bar> * q"
    using q by (simp add: abs_mult)
  also have "\<dots> \<le> 2 ^ 53 * q" using r q by simp
  also have "\<dots> = 2 / 2 ^ n" unfolding q_def by (simp add: power_add)
  also have "\<dots> \<le> 2" by (simp add: divide_le_eq)
  also have "\<dots> < (2::real) ^ 1024" by simp
  finally have small: "\<not> 2 ^ 1024 \<le> \<bar>of_int (round_even (x / q)) * q\<bar>" by simp
  show ?thesis
    unfolding fl64_def Let_def qe using nz small
    by (simp add: xq) (simp add: q_def)
qed

text \<open>
  The sum of \<open>Rect.random\<close>, \<open>bottom + (top - bottom) * u\<close>, in double arithmetic on the
  bounds 32 and 48: the draw \<open>2^(-53)\<close> gives the lower bound, and the draw \<open>1 - 2^(-53)\<close>,
  the largest double below 1, gives the upper bound.
\<close>

lemma rounded_sum_reaches_bounds:
  "round64 (Fin 32 + times64 (round64 (Fin 48 - Fin 32)) (Fin (1 / 2 ^ 53))) = Fin 32"
  "round64 (Fin 32 + times64 (round64 (Fin 48 - Fin 32)) (Fin (1 - 1 / 2 ^ 53))) = Fin 48"
proof -
  have h: "round64 (Fin 48 - Fin 32) = Fin 16"
    using fl64_pos_binade [of 4 16] by (simp add: round_even_def Let_def)
  have p0: "times64 (Fin 16) (Fin (1 / 2 ^ 53)) = Fin (1 / 2 ^ 49)"
    using fl64_neg_binade [of 49 "1 / 2 ^ 49"] by (simp add: times64_def round_even_def Let_def)
  have p1: "times64 (Fin 16) (Fin (1 - 1 / 2 ^ 53)) = Fin (16 - 1 / 2 ^ 49)"
    using fl64_pos_binade [of 3 "16 - 1 / 2 ^ 49"]
    by (simp add: times64_def round_even_def Let_def)
  show "round64 (Fin 32 + times64 (round64 (Fin 48 - Fin 32)) (Fin (1 / 2 ^ 53))) = Fin 32"
    unfolding h p0 using fl64_pos_binade [of 5 "32 + 1 / 2 ^ 49"]
    by (simp add: round_even_def Let_def)
  show "round64 (Fin 32 + times64 (round64 (Fin 48 - Fin 32)) (Fin (1 - 1 / 2 ^ 53))) = Fin 48"
    unfolding h p1 using fl64_pos_binade [of 5 "48 - 1 / 2 ^ 49"]
    by (simp add: round_even_def Let_def)
qed

lemma round64_nonneg: "Fin 0 \<le> x \<Longrightarrow> Fin 0 \<le> round64 x"
  by (cases x) (simp_all add: fl64_nonneg)

lemma divide64_nonneg:
  assumes "isFinite a" "isFinite b" "Fin 0 \<le> a" "Fin 0 < b"
  shows "Fin 0 \<le> divide64 a b z"
proof -
  from assms obtain x y where xy: "a = Fin x" "b = Fin y" "0 \<le> x" "0 < y"
    by (cases a; cases b) simp_all
  then have "0 \<le> x / y" by simp
  then have "Fin 0 \<le> fl64 (x / y)" by (rule fl64_nonneg)
  with xy show ?thesis by (simp add: divide64_def)
qed

text \<open>The double that the literal \<open>0.7\<close> denotes, and the one nearest to \<open>1/10\<close>.\<close>

lemma fl64_07: "fl64 (7 / 10) = Fin (3152519739159347 / 4503599627370496)"
  using fl64_neg_binade [of 1 "7 / 10"] by (simp add: round_even_def Let_def)

lemma fl64_01: "fl64 (1 / 10) = Fin (3602879701896397 / 36028797018963968)"
  using fl64_neg_binade [of 4 "1 / 10"] by (simp add: round_even_def Let_def)

lemma literal_07: "round64 (Fin 0.7) = Fin (3152519739159347 / 4503599627370496)"
  by (simp add: fl64_07)

lemma literal_01: "round64 (Fin 0.1) = Fin (3602879701896397 / 36028797018963968)"
  by (simp add: fl64_01)

lemma times64_07_nonneg:
  assumes "0 \<le> m"
  shows "Fin 0 \<le> times64 (round64 (Fin 0.7)) (Fin m)"
proof -
  have "0 \<le> 3152519739159347 / 4503599627370496 * m" using assms by simp
  then have "Fin 0 \<le> fl64 (3152519739159347 / 4503599627370496 * m)" by (rule fl64_nonneg)
  then show ?thesis by (simp add: times64_def fl64_07)
qed

text \<open>\<open>0.7 * 10\<close> lies halfway between two doubles and is rounded to \<open>7\<close>, the even one.\<close>

lemma times64_07_10: "times64 (round64 (Fin 0.7)) (Fin 10) = Fin 7"
  using fl64_pos_binade [of 2 "3152519739159347 / 4503599627370496 * 10"]
  by (simp add: times64_def fl64_07 round_even_def Let_def)

lemma times64_07_0: "times64 (round64 (Fin 0.7)) (Fin 0) = Fin 0"
  by (simp add: times64_def fl64_07) (simp add: fl64_def)

lemma times64_07_neg90: "times64 (round64 (Fin 0.7)) (Fin (- 90)) = Fin (- (8866461766385663 / 140737488355328))"
  using fl64_pos_binade [of 5 "3152519739159347 / 4503599627370496 * (- 90)"]
  by (simp add: times64_def fl64_07 round_even_def Let_def)

lemma divide64_168_half: "divide64 (Fin 168) (Fin (1 / 2)) False = Fin 336"
  using fl64_pos_binade [of 8 336] by (simp add: divide64_def round_even_def Let_def)

lemma divide64_neg90_1: "divide64 (Fin (- 90)) (Fin 1) False = Fin (- 90)"
  using fl64_pos_binade [of 6 "- 90"] by (simp add: divide64_def round_even_def Let_def)

lemma divide64_1_tenth:
  "divide64 (Fin 1) (Fin (3602879701896397 / 36028797018963968)) False = Fin 10"
  using fl64_pos_binade [of 3 "36028797018963968 / 3602879701896397"]
  by (simp add: divide64_def round_even_def Let_def)

lemma divide64_neg1_2: "divide64 (Fin (- 1)) (Fin 2) False = Fin (- (1 / 2))"
  using fl64_neg_binade [of 1 "- (1 / 2)"] by (simp add: divide64_def round_even_def Let_def)

text \<open>
  Three configurations on which the rounding decides the bounds. With \<open>window = -90\<close>
  and \<open>tick = 1\<close> the product \<open>0.7 * -90\<close> is the double just above \<open>-63\<close>, so \<open>minTicks\<close>
  is \<open>-62\<close>. With \<open>window = 1\<close> and \<open>tick = 0.1\<close> the quotient of the two doubles is
  just below \<open>10\<close> and is rounded to \<open>10\<close>. With a tick duration that is the negative
  zero the quotient is \<open>-Infinity\<close>, and so are both bounds.
\<close>

lemma makeUpdate_rounding:
  "makeUpdate 0 (Fin (- 90)) (Fin 1) False g
     = Inr (\<lparr>tickDuration = Fin 1, minTicks = Fin (- 62), maxTicks = Fin (- 90), streams = []\<rparr>, g)"
  "makeUpdate 0 (Fin 1) (round64 (Fin 0.1)) False g
     = Inr (\<lparr>tickDuration = Fin (3602879701896397 / 36028797018963968),
              minTicks = Fin 5, maxTicks = Fin 10, streams = []\<rparr>, g)"
  "makeUpdate 0 (Fin 168) (Fin 0) True g
     = Inr (\<lparr>tickDuration = Fin 0, minTicks = NInf, maxTicks = NInf, streams = []\<rparr>, g)"
proof -
  have c: "\<lceil>- (8866461766385663 / 140737488355328) :: real\<rceil> = - 62"
    by (rule ceiling_unique) simp_all
  show "makeUpdate 0 (Fin (- 90)) (Fin 1) False g
     = Inr (\<lparr>tickDuration = Fin 1, minTicks = Fin (- 62), maxTicks = Fin (- 90), streams = []\<rparr>, g)"
    by (simp add: makeUpdate_def Let_def divide64_neg90_1 fl64_07
          times64_07_neg90 [unfolded literal_07] c)
  show "makeUpdate 0 (Fin 1) (round64 (Fin 0.1)) False g
     = Inr (\<lparr>tickDuration = Fin (3602879701896397 / 36028797018963968),
              minTicks = Fin 5, maxTicks = Fin 10, streams = []\<rparr>, g)"
    by (simp add: makeUpdate_def Let_def fl64_01 fl64_07 divide64_1_tenth
          times64_07_10 [unfolded literal_07])
  have t: "times64 (Fin (3152519739159347 / 4503599627370496)) NInf = NInf"
    by (simp add: times64_def)
  show "makeUpdate 0 (Fin 168) (Fin 0) True g
     = Inr (\<lparr>tickDuration = Fin 0, minTicks = NInf, maxTicks = NInf, streams = []\<rparr>, g)"
    by (simp add: makeUpdate_def Let_def divide64_def fl64_07 t)
qed

text \<open>
  C9 (as amended). For every \<open>window\<close> and \<open>tick\<close> parameter, \<open>makeUpdate\<close> derives
  \<open>maxTicks = min (10, trunc (maxWindow / tickDuration))\<close> and
  \<open>minTicks = min (5, trunc (0.7 \<cdot> maxTicks))\<close>, where the quotient and the product are
  the doubles that the machine returns and \<open>trunc\<close> rounds towards zero; no other
  input enters them. When the quotient is not negative, as it is for every finite
  \<open>window \<ge> 0\<close> and \<open>tick > 0\<close>, these are the bounds with \<open>floor\<close> in place of \<open>trunc\<close>.
\<close>

theorem makeUpdate_ticks:
  assumes g: "valid_rng g" and n: "0 \<le> numPoints" "numPoints \<le> 4294967295"
  shows "\<exists>u g'. makeUpdate numPoints maxWindow tickDur tickNegZero g = Inr (u, g')
    \<and> tickDuration u = tickDur
    \<and> maxTicks u = Math_min (Fin 10) (Math_trunc (divide64 maxWindow tickDur tickNegZero))
    \<and> minTicks u = Math_min (Fin 5) (Math_trunc (times64 (round64 (Fin 0.7)) (maxTicks u)))
    \<and> (Fin 0 \<le> divide64 maxWindow tickDur tickNegZero \<longrightarrow>
          maxTicks u = Math_min (Fin 10) (Math_floor (divide64 maxWindow tickDur tickNegZero))
        \<and> minTicks u = Math_min (Fin 5) (Math_floor (times64 (round64 (Fin 0.7)) (maxTicks u))))
    \<and> (isFinite maxWindow \<and> isFinite tickDur \<and> Fin 0 \<le> maxWindow \<and> Fin 0 < tickDur \<longrightarrow>
          Fin 0 \<le> divide64 maxWindow tickDur tickNegZero)"
proof -
  define quot where "quot = divide64 maxWindow tickDur tickNegZero"
  define hi where "hi = Math_min (Fin 10) (Math_trunc quot)"
  define lo where "lo = Math_min (Fin 5) (Math_trunc (times64 (round64 (Fin 0.7)) hi))"
  from fill_streams_total [OF g, of "nat numPoints" lo hi] obtain ss g' where
    f: "fill_streams (nat numPoints) lo hi g = Inr (ss, g')" by blast
  define u where "u = \<lparr>tickDuration = tickDur, minTicks = lo, maxTicks = hi, streams = ss\<rparr>"
  have m: "makeUpdate numPoints maxWindow tickDur tickNegZero g = Inr (u, g')"
    using n f by (simp add: makeUpdate_def Let_def hi_def lo_def u_def quot_def)
  have sel: "tickDuration u = tickDur" "maxTicks u = hi" "minTicks u = lo"
    by (simp_all add: u_def)
  have fl: "hi = Math_min (Fin 10) (Math_floor quot)
        \<and> lo = Math_min (Fin 5) (Math_floor (times64 (round64 (Fin 0.7)) hi))"
    if q: "Fin 0 \<le> quot"
  proof -
    from min_trunc_nonneg [OF q] obtain m where hm: "hi = Fin m" "0 \<le> m" by (auto simp: hi_def)
    from times64_07_nonneg [OF hm(2)] have "Fin 0 \<le> times64 (round64 (Fin 0.7)) hi"
      unfolding hm(1) .
    from trunc_floor [OF this] trunc_floor [OF q] show ?thesis by (simp add: hi_def lo_def)
  qed
  have pos: "Fin 0 \<le> quot"
    if "isFinite maxWindow \<and> isFinite tickDur \<and> Fin 0 \<le> maxWindow \<and> Fin 0 < tickDur"
    unfolding quot_def using that by (intro divide64_nonneg) simp_all
  have "makeUpdate numPoints maxWindow tickDur tickNegZero g = Inr (u, g')
    \<and> tickDuration u = tickDur
    \<and> maxTicks u = Math_min (Fin 10) (Math_trunc quot)
    \<and> minTicks u = Math_min (Fin 5) (Math_trunc (times64 (round64 (Fin 0.7)) (maxTicks u)))
    \<and> (Fin 0 \<le> quot \<longrightarrow>
          maxTicks u = Math_min (Fin 10) (Math_floor quot)
        \<and> minTicks u = Math_min (Fin 5) (Math_floor (times64 (round64 (Fin 0.7)) (maxTicks u))))
    \<and> (isFinite maxWindow \<and> isFinite tickDur \<and> Fin 0 \<le> maxWindow \<and> Fin 0 < tickDur \<longrightarrow>
          Fin 0 \<le> quot)"
    using m hi_def lo_def fl pos unfolding sel by blast
  then show ?thesis unfolding quot_def by blast
qed

theorem makeUpdate_ticks_witness:
  "valid_rng (const_rng (1 / 2)) \<and> (0::int) \<le> 2 \<and> (2::int) \<le> 4294967295
   \<and> isFinite (Fin 168) \<and> isFinite (Fin (1 / 2)) \<and> Fin 0 \<le> Fin 168 \<and> Fin 0 < Fin (1 / 2)
   \<and> Fin 0 \<le> divide64 (Fin 168) (Fin (1 / 2)) False
   \<and> (\<exists>u g'. makeUpdate 2 (Fin 168) (Fin (1 / 2)) False (const_rng (1 / 2)) = Inr (u, g')
        \<and> maxTicks u = Fin 10 \<and> minTicks u = Fin 5)"
proof -
  have g: "valid_rng (const_rng (1 / 2))" by simp
  have n: "(0::int) \<le> 2" "(2::int) \<le> 4294967295" by simp_all
  have p: "isFinite (Fin 168) \<and> isFinite (Fin (1 / 2)) \<and> Fin 0 \<le> Fin 168 \<and> Fin 0 < Fin (1 / 2)"
    by simp
  from makeUpdate_ticks [OF g n, of "Fin 168" "Fin (1 / 2)" False] obtain u g' where r:
    "makeUpdate 2 (Fin 168) (Fin (1 / 2)) False (const_rng (1 / 2)) = Inr (u, g')"
    "Fin 0 \<le> divide64 (Fin 168) (Fin (1 / 2)) False \<longrightarrow>
          maxTicks u = Math_min (Fin 10) (Math_floor (divide64 (Fin 168) (Fin (1 / 2)) False))
        \<and> minTicks u = Math_min (Fin 5) (Math_floor (times64 (round64 (Fin 0.7)) (maxTicks u)))"
    "isFinite (Fin 168) \<and> isFinite (Fin (1 / 2)) \<and> Fin 0 \<le> Fin 168 \<and> Fin 0 < Fin (1 / 2) \<longrightarrow>
          Fin 0 \<le> divide64 (Fin 168) (Fin (1 / 2)) False"
    by (elim conjE exE)
  from r(3) p have q: "Fin 0 \<le> divide64 (Fin 168) (Fin (1 / 2)) False" by (rule mp)
  from r(2) q have
    "maxTicks u = Math_min (Fin 10) (Math_floor (divide64 (Fin 168) (Fin (1 / 2)) False))
   \<and> minTicks u = Math_min (Fin 5) (Math_floor (times64 (round64 (Fin 0.7)) (maxTicks u)))"
    by (rule mp)
  then have hi0: "maxTicks u = Math_min (Fin 10) (Math_floor (divide64 (Fin 168) (Fin (1 / 2)) False))"
    and lo: "minTicks u = Math_min (Fin 5) (Math_floor (times64 (round64 (Fin 0.7)) (maxTicks u)))"
    by (rule conjunct1, rule conjunct2)
  from hi0 have hi: "maxTicks u = Fin 10" unfolding divide64_168_half by simp
  from lo have "minTicks u = Fin 5" unfolding hi times64_07_10 by simp
  with r(1) hi have "\<exists>u g'. makeUpdate 2 (Fin 168) (Fin (1 / 2)) False (const_rng (1 / 2)) = Inr (u, g')
        \<and> maxTicks u = Fin 10 \<and> minTicks u = Fin 5" by blast
  with g n p q show ?thesis by blast
qed

text \<open>
  C9 as stated fails for a negative quotient, and \<open>makeUpdate\<close> does not check the sign
  of its parameters: with \<open>window = -1\<close> and \<open>tick = 2\<close> the quotient is \<open>-0.5\<close> (exact in
  the double format), the code derives \<open>maxTicks = 0\<close>, and the bound with \<open>floor\<close> is
  \<open>-1\<close>.
\<close>

theorem makeUpdate_floor_counterexample:
  "makeUpdate 0 (Fin (- 1)) (Fin 2) False (const_rng (1 / 2))
     = Inr (\<lparr>tickDuration = Fin 2, minTicks = Fin 0, maxTicks = Fin 0, streams = []\<rparr>,
            const_rng (1 / 2))
   \<and> Math_min (Fin 10) (Math_floor (divide64 (Fin (- 1)) (Fin 2) False)) = Fin (- 1)
   \<and> Math_min (Fin 10) (Math_floor (Fin (- 1) / Fin 2)) = Fin (- 1)"
proof -
  have c: "\<lceil>- (1 / 2) :: real\<rceil> = 0" by (rule ceiling_unique) simp_all
  have f: "\<lfloor>- (1 / 2) :: real\<rfloor> = - 1" by (rule floor_unique) simp_all
  show ?thesis
    by (simp add: makeUpdate_def Let_def divide64_neg1_2 fl64_07
          times64_07_0 [unfolded literal_07] c f)
qed

section \<open>Exactness at the stations: two stations, and a westerly wind\<close>

lemma haversine_meridian:
  "haversineDist (LatLon 41 (- 105)) (LatLon 40 (- 105)) = Fin (pi / 180)"
proof -
  have r: "0 \<le> pi / 180" "pi / 180 \<le> pi" using pi_ge_zero by simp_all
  have "(40 - 41) * pi / 180 = - (pi / 180)" by simp
  then have c: "cos ((40 - 41) * pi / 180) = cos (pi / 180)" by (simp only: cos_minus)
  show ?thesis
    unfolding LatLon_def haversineDist_Fin c
    using arccos_cos [OF r] by (simp add: field_simps)
qed

lemma bases_pair:
  "bases defaultOptions
     [\<lparr>station = ''DEN'', pos = LatLon 40 (- 105), wind = \<lparr>dir = Fin 0, speed = Fin 10\<rparr>\<rparr>,
      \<lparr>station = ''CYS'', pos = LatLon 41 (- 105), wind = \<lparr>dir = Fin 90, speed = Fin 5\<rparr>\<rparr>]
   = [[Fin 1, Fin (exp (- 300 * (pi / 180)\<^sup>2))], [Fin (exp (- 300 * (pi / 180)\<^sup>2)), Fin 1]]"
  by (simp add: bases_def bases_row_def Matrix_new_def Matrix_set_def defaultOptions_def
      haversine_meridian Let_def numeral_2_eq_2)

lemma cramer_pair:
  assumes k: "k\<^sup>2 \<noteq> 1"
  shows "cramer_solver [[Fin 1, Fin k], [Fin k, Fin 1]] [Fin x, Fin y]
      = Some [Fin ((x - k * y) / (1 - k\<^sup>2)), Fin ((y - k * x) / (1 - k\<^sup>2))]"
    and "mat_vec [[Fin 1, Fin k], [Fin k, Fin 1]]
          [Fin ((x - k * y) / (1 - k\<^sup>2)), Fin ((y - k * x) / (1 - k\<^sup>2))] = [Fin x, Fin y]"
proof -
  have d: "1 - k\<^sup>2 \<noteq> 0" using k by simp
  then have d': "1 - k * k \<noteq> 0" by (simp add: power2_eq_square)
  show "cramer_solver [[Fin 1, Fin k], [Fin k, Fin 1]] [Fin x, Fin y]
      = Some [Fin ((x - k * y) / (1 - k\<^sup>2)), Fin ((y - k * x) / (1 - k\<^sup>2))]"
    using d' by (simp add: cramer_solver_def Let_def power2_eq_square)
  have "(x - k * y) / (1 - k\<^sup>2) + k * ((y - k * x) / (1 - k\<^sup>2))
      = ((x - k * y) + k * (y - k * x)) / (1 - k\<^sup>2)"
    by (simp add: add_divide_distrib)
  also have "(x - k * y) + k * (y - k * x) = x * (1 - k\<^sup>2)"
    by (simp add: algebra_simps power2_eq_square)
  finally have 1: "(x - k * y) / (1 - k\<^sup>2) + k * ((y - k * x) / (1 - k\<^sup>2)) = x"
    using d by simp
  have "k * ((x - k * y) / (1 - k\<^sup>2)) + (y - k * x) / (1 - k\<^sup>2)
      = (k * (x - k * y) + (y - k * x)) / (1 - k\<^sup>2)"
    by (simp add: add_divide_distrib)
  also have "k * (x - k * y) + (y - k * x) = y * (1 - k\<^sup>2)"
    by (simp add: algebra_simps power2_eq_square)
  finally have 2: "k * ((x - k * y) / (1 - k\<^sup>2)) + (y - k * x) / (1 - k\<^sup>2) = y"
    using d by simp
  show "mat_vec [[Fin 1, Fin k], [Fin k, Fin 1]]
          [Fin ((x - k * y) / (1 - k\<^sup>2)), Fin ((y - k * x) / (1 - k\<^sup>2))] = [Fin x, Fin y]"
    using 1 2 by (simp add: mat_vec_def mmul_def)
qed

lemma kernel_entry_range: "(exp (- 300 * (pi / 180)\<^sup>2))\<^sup>2 \<noteq> (1::real)"
proof -
  have "0 < 300 * (pi / 180)\<^sup>2" using pi_gt_zero by simp
  then have "exp (- 300 * (pi / 180)\<^sup>2) < (1::real)" by simp
  moreover have "0 < exp (- 300 * (pi / 180)\<^sup>2)" by simp
  ultimately have "(exp (- 300 * (pi / 180)\<^sup>2))\<^sup>2 < (1::real)"
    by (simp add: abs_square_less_1)
  then show ?thesis by simp
qed

lemma mat_vec_single: "mat_vec [[Fin 1]] [Fin x] = [Fin x]"
  by (simp add: mat_vec_def mmul_def)



end
